theory Spec2Isabelle
  imports Complex_Main
begin

section \<open>Data model of \<^verbatim>\<open>game.py\<close>\<close>

text \<open>
  Python \<^verbatim>\<open>Player\<close> objects are shared by reference between the roster, the
  location occupant lists, the histories and each other's social fields.  The model
  keeps them in an arena: a player is a handle (\<open>pid\<close>) and the game holds the store
  \<open>pl\<close> from handles to the mutable fields.  Object identity (\<^verbatim>\<open>is\<close>) and the
  dataclass equality used by \<^verbatim>\<open>in\<close> are both equality of handles (player names
  are unique in a map file).  The fields \<^verbatim>\<open>name\<close> and \<^verbatim>\<open>competency\<close> are read
  by no engine function and are left out.  The dislike weights are Python floats; they
  are modelled as exact rationals.
\<close>

type_synonym pid = nat

datatype TaskLength = SHORT | MEDIUM | LONG

fun TASK_TO_TICKS :: "TaskLength \<Rightarrow> int" where
  "TASK_TO_TICKS SHORT = 1"
| "TASK_TO_TICKS MEDIUM = 2"
| "TASK_TO_TICKS LONG = 3"

definition DELTA_DISLIKE :: rat where "DELTA_DISLIKE = 15 / 100"
definition MAX_DISLIKE :: rat where "MAX_DISLIKE = 9 / 10"
definition KILL_COOLDOWN_TICKS :: int where "KILL_COOLDOWN_TICKS = 5"
definition VENT_COOLDOWN_TICKS :: int where "VENT_COOLDOWN_TICKS = 5"
definition SUS_WINDOW :: int where "SUS_WINDOW = 2"

datatype PlayerState = IDLE | WORKING | FOLLOWING | DEAD | FIX_SABOTAGE

record Task =
  tname :: string
  tlength :: TaskLength
  visual :: bool
  tlocation :: string
  next_task :: "string list option"

record Player =
  imposter :: bool
  tasks :: "Task list"
  state :: PlayerState
  current_location :: string
  current_task :: "Task option"
  ticks_elapsed :: int
  dislike_visited_node :: "string \<rightharpoonup> rat"
  following_player :: "pid option"
  player_following :: "pid list"
  vouch_history :: "pid set"
  kill_cooldown :: int
  vent_cooldown :: int
  voted_out :: bool
  dead_body_reported :: bool

text \<open>A \<^verbatim>\<open>Node\<close> is stored under its own name, so the name is the key of \<open>nodes\<close>.\<close>

record Node =
  node_players :: "pid list"
  vent :: bool

datatype Action =
    NoneAction
  | MoveAction string
  | StartTaskAction Task
  | WorkTaskAction
  | KillAction pid bool "pid option" "pid option"
  | ReportAction "pid list option" "pid option"
  | SetStateAction PlayerState
  | FollowAction "pid option"

text \<open>
  \<^verbatim>\<open>MovementHistory\<close> and \<^verbatim>\<open>KillWitnessHistory\<close>, with the fields in the order
  of the dataclass declarations: (tick, witness, subject, previous, location) and
  (tick, killer, victim, witnesses).
\<close>

record MovementHistory =
  tick_mh :: int
  witness :: pid
  subject :: pid
  previous :: string
  location :: string

record KillWitnessHistory =
  tick_kw :: int
  killer :: pid
  victim :: pid
  witnesses :: "pid list"

text \<open>
  An entry of \<^verbatim>\<open>action_history\<close> is \<open>(tick, player, item)\<close>; the item is the action
  or the outcome string of \<^verbatim>\<open>_log_report_outcome\<close>, kept as its four format arguments
  (reporter, witnessed, dead\_bodies, voted\_out).
\<close>

datatype LogItem =
    Act Action
  | REPORT_OUTCOME pid "pid option" "pid list option" "pid option"

record Game =
  nodes :: "string \<rightharpoonup> Node"
  edges :: "string \<rightharpoonup> (string \<rightharpoonup> bool)"
  game_tasks :: "string \<rightharpoonup> Task"
  players :: "pid list"
  pl :: "pid \<Rightarrow> Player"
  movement_history :: "MovementHistory list"
  kill_witness_history :: "KillWitnessHistory list"
  tick_counter :: int
  action_history :: "(int \<times> pid \<times> LogItem) list"

text \<open>
  A Python exception leaves the mutations made before it in place, so a raise is
  \<open>Inl (e, g)\<close> with the state \<open>g\<close> at the moment of the raise.
\<close>

datatype error = IndexError | KeyError | ValueError

type_synonym result = "(error \<times> Game) + Game"

fun final :: "result \<Rightarrow> Game" where
  "final (Inl (e, g)) = g"
| "final (Inr g) = g"

fun raises :: "result \<Rightarrow> bool" where
  "raises (Inl x) = True"
| "raises (Inr g) = False"

definition upd_player :: "Game \<Rightarrow> pid \<Rightarrow> (Player \<Rightarrow> Player) \<Rightarrow> Game" where
  "upd_player g p f = g\<lparr>pl := (pl g)(p := f (pl g p))\<rparr>"

section \<open>Engine queries\<close>

definition get_player_current_node :: "Game \<Rightarrow> pid \<Rightarrow> Node option" where
  "get_player_current_node g player = nodes g (current_location (pl g player))"

definition get_other_players_in_current_node :: "Game \<Rightarrow> pid \<Rightarrow> pid list option" where
  "get_other_players_in_current_node g player =
     (case get_player_current_node g player of
        None \<Rightarrow> None
      | Some node \<Rightarrow> Some (filter (\<lambda>p. p \<noteq> player) (node_players node)))"

definition get_dead_bodies_unreported :: "Game \<Rightarrow> pid list" where
  "get_dead_bodies_unreported g =
     filter (\<lambda>p. state (pl g p) = DEAD \<and> \<not> voted_out (pl g p) \<and> \<not> dead_body_reported (pl g p))
       (players g)"

definition tick_cooldowns :: "Game \<Rightarrow> Game" where
  "tick_cooldowns g =
     fold (\<lambda>p g'. if state (pl g' p) = DEAD then g'
                   else upd_player g' p (\<lambda>P. P\<lparr>kill_cooldown := max (kill_cooldown P - 1) 0,
                                                 vent_cooldown := max (vent_cooldown P - 1) 0\<rparr>))
       (players g) g"

definition check_crewmate_win :: "Game \<Rightarrow> bool" where
  "check_crewmate_win g = list_all (\<lambda>p. state (pl g p) = DEAD) (filter (\<lambda>p. imposter (pl g p)) (players g))"

definition check_imposter_win :: "Game \<Rightarrow> bool" where
  "check_imposter_win g = list_all (\<lambda>p. state (pl g p) = DEAD) (filter (\<lambda>p. \<not> imposter (pl g p)) (players g))"

section \<open>Engine mutations\<close>

definition apply_set_state :: "Game \<Rightarrow> pid \<Rightarrow> PlayerState \<Rightarrow> Game" where
  "apply_set_state g player new_state =
     (if state (pl g player) = DEAD then g
      else upd_player g player (\<lambda>P. P\<lparr>state := new_state\<rparr>))"

subsection \<open>\<^verbatim>\<open>_apply_move\<close>\<close>

definition bump_dislike :: "Game \<Rightarrow> pid \<Rightarrow> string \<Rightarrow> Game" where
  "bump_dislike g player dest_name =
     (let dislike = (case dislike_visited_node (pl g player) dest_name of None \<Rightarrow> 0 | Some d \<Rightarrow> d)
      in upd_player g player
           (\<lambda>P. P\<lparr>dislike_visited_node :=
                    (dislike_visited_node P)(dest_name \<mapsto> min (dislike + DELTA_DISLIKE) MAX_DISLIKE)\<rparr>))"

definition upd_node :: "Game \<Rightarrow> string \<Rightarrow> (pid list \<Rightarrow> pid list) \<Rightarrow> Game" where
  "upd_node g n f =
     (case nodes g n of
        None \<Rightarrow> g
      | Some node \<Rightarrow> g\<lparr>nodes := (nodes g)(n \<mapsto> node\<lparr>node_players := f (node_players node)\<rparr>)\<rparr>)"

definition occupants :: "Game \<Rightarrow> string \<Rightarrow> pid list" where
  "occupants g n = (case nodes g n of None \<Rightarrow> [] | Some node \<Rightarrow> node_players node)"

definition transfer_player :: "Game \<Rightarrow> pid \<Rightarrow> string \<Rightarrow> string \<Rightarrow> Game" where
  "transfer_player g player src_name dest_name =
     (let g1 = (if player \<in> set (occupants g src_name)
                then upd_node g src_name (remove1 player) else g);
          g2 = (if player \<notin> set (occupants g1 dest_name)
                then upd_node g1 dest_name (\<lambda>ps. ps @ [player]) else g1)
      in upd_player g2 player (\<lambda>P. P\<lparr>current_location := dest_name\<rparr>))"

definition movement_records :: "Game \<Rightarrow> pid \<Rightarrow> string \<Rightarrow> string \<Rightarrow> MovementHistory list" where
  "movement_records g player src_name dest_name =
     map (\<lambda>w. \<lparr>tick_mh = tick_counter g, witness = player, subject = w,
                previous = src_name, location = dest_name\<rparr>)
       (filter (\<lambda>w. w \<noteq> player \<and> state (pl g w) \<noteq> DEAD) (occupants g dest_name))"

definition apply_move :: "Game \<Rightarrow> pid \<Rightarrow> string \<Rightarrow> result" where
  "apply_move g player dest_name =
     (if state (pl g player) = DEAD then Inr g
      else case nodes g dest_name of
        None \<Rightarrow> Inr g
      | Some dest_node \<Rightarrow>
         (case get_player_current_node g player of
            None \<Rightarrow> Inl (KeyError, g)
          | Some src_node \<Rightarrow>
             (let src_name = current_location (pl g player);
                  edges_from_src = (case edges g src_name of None \<Rightarrow> Map.empty | Some m \<Rightarrow> m)
              in case edges_from_src dest_name of
                   None \<Rightarrow> Inr g
                 | Some is_vent \<Rightarrow>
                    if is_vent \<and> (\<not> imposter (pl g player) \<or> vent_cooldown (pl g player) > 0)
                    then Inr g
                    else
                      (let g1 = bump_dislike g player dest_name;
                           g2 = transfer_player g1 player src_name dest_name;
                           g3 = g2\<lparr>movement_history :=
                                     movement_history g2 @ movement_records g2 player src_name dest_name\<rparr>
                       in Inr (if vent src_node \<and> \<not> vent dest_node
                               then upd_player g3 player (\<lambda>P. P\<lparr>vent_cooldown := VENT_COOLDOWN_TICKS\<rparr>)
                               else g3)))))"

subsection \<open>\<^verbatim>\<open>_apply_start_task\<close> and \<^verbatim>\<open>_apply_work_task_tick\<close>\<close>

definition apply_start_task :: "Game \<Rightarrow> pid \<Rightarrow> Task \<Rightarrow> Game" where
  "apply_start_task g player task =
     (if state (pl g player) = DEAD then g
      else if task \<notin> set (tasks (pl g player)) \<and> current_task (pl g player) \<noteq> None then g
      else
        (let g1 = upd_player g player (\<lambda>P. P\<lparr>current_task := Some task\<rparr>)
         in if \<not> imposter (pl g1 player) \<and> task \<in> set (tasks (pl g1 player))
            then upd_player g1 player (\<lambda>P. P\<lparr>tasks := remove1 task (tasks P)\<rparr>)
            else g1))"

definition enqueue_next :: "Game \<Rightarrow> pid \<Rightarrow> Task \<Rightarrow> result" where
  "enqueue_next g player task =
     (case next_task task of
        None \<Rightarrow> Inr g
      | Some nt \<Rightarrow>
         if imposter (pl g player) then Inr g
         else (case nt of
                 [] \<Rightarrow> Inl (IndexError, g)
               | next_name # _ \<Rightarrow>
                  (case game_tasks g next_name of
                     None \<Rightarrow> Inr g
                   | Some t \<Rightarrow> Inr (upd_player g player (\<lambda>P. P\<lparr>tasks := tasks P @ [t]\<rparr>)))))"

definition grant_vouches :: "Game \<Rightarrow> pid \<Rightarrow> Task \<Rightarrow> Game" where
  "grant_vouches g player task =
     (if visual task \<and> \<not> imposter (pl g player)
      then fold (\<lambda>follower g'. upd_player g' follower
                    (\<lambda>P. P\<lparr>vouch_history := insert player (vouch_history P)\<rparr>))
             (player_following (pl g player)) g
      else g)"

definition apply_work_task_tick :: "Game \<Rightarrow> pid \<Rightarrow> result" where
  "apply_work_task_tick g player =
     (if state (pl g player) = DEAD then Inr g
      else case current_task (pl g player) of
        None \<Rightarrow> Inr g
      | Some task \<Rightarrow>
         if tlocation task \<noteq> current_location (pl g player) then Inr g
         else
           (let g1 = upd_player g player (\<lambda>P. P\<lparr>ticks_elapsed := ticks_elapsed P + 1\<rparr>)
            in if ticks_elapsed (pl g1 player) < TASK_TO_TICKS (tlength task) then Inr g1
               else
                 (let g2 = upd_player g1 player (\<lambda>P. P\<lparr>ticks_elapsed := 0\<rparr>)
                  in case enqueue_next g2 player task of
                       Inl e \<Rightarrow> Inl e
                     | Inr g3 \<Rightarrow>
                        Inr (upd_player (grant_vouches g3 player task) player
                               (\<lambda>P. P\<lparr>current_task := None\<rparr>)))))"

subsection \<open>\<^verbatim>\<open>_apply_follow\<close>\<close>

definition apply_follow :: "Game \<Rightarrow> pid \<Rightarrow> pid option \<Rightarrow> Game" where
  "apply_follow g player leader =
     (if state (pl g player) = DEAD then g
      else
        (let g1 = (case following_player (pl g player) of
                     None \<Rightarrow> g
                   | Some old_leader \<Rightarrow>
                      upd_player
                        (if player \<in> set (player_following (pl g old_leader))
                         then upd_player g old_leader
                                (\<lambda>P. P\<lparr>player_following := remove1 player (player_following P)\<rparr>)
                         else g)
                        player (\<lambda>P. P\<lparr>following_player := None\<rparr>))
         in case leader of
              None \<Rightarrow> upd_player g1 player (\<lambda>P. P\<lparr>state := IDLE\<rparr>)
            | Some l \<Rightarrow>
               (let g2 = upd_player g1 player (\<lambda>P. P\<lparr>following_player := Some l\<rparr>);
                    g3 = (if player \<notin> set (player_following (pl g2 l))
                          then upd_player g2 l (\<lambda>P. P\<lparr>player_following := player_following P @ [player]\<rparr>)
                          else g2)
                in upd_player g3 player (\<lambda>P. P\<lparr>state := FOLLOWING\<rparr>))))"

section \<open>Report and voting resolver (\<^verbatim>\<open>Game.report\<close>)\<close>

definition log_report_outcome ::
  "Game \<Rightarrow> pid \<Rightarrow> pid option \<Rightarrow> pid list option \<Rightarrow> pid option \<Rightarrow> Game" where
  "log_report_outcome g reporter witnessed dead_bodies voted =
     g\<lparr>action_history := action_history g @
          [(tick_counter g, reporter, REPORT_OUTCOME reporter witnessed dead_bodies voted)]\<rparr>"

definition vote_out :: "Game \<Rightarrow> pid \<Rightarrow> Game" where
  "vote_out g p = upd_player g p (\<lambda>P. P\<lparr>state := DEAD, voted_out := True\<rparr>)"

definition bodies_of :: "pid list option \<Rightarrow> pid list" where
  "bodies_of dead_bodies = (case dead_bodies of None \<Rightarrow> [] | Some bs \<Rightarrow> bs)"

definition mark_reported :: "Game \<Rightarrow> pid list option \<Rightarrow> Game" where
  "mark_reported g dead_bodies =
     fold (\<lambda>p g'. upd_player g' p (\<lambda>P. P\<lparr>dead_body_reported := True\<rparr>)) (bodies_of dead_bodies) g"

subsection \<open>Witnessed report: the majority tally\<close>

definition imposters_in_node :: "Game \<Rightarrow> pid \<Rightarrow> pid list \<Rightarrow> pid list" where
  "imposters_in_node g reporter others =
     (let xs = filter (\<lambda>p. imposter (pl g p) \<and> state (pl g p) \<noteq> DEAD) others
      in if imposter (pl g reporter) then xs @ [reporter] else xs)"

definition crewmates_in_node :: "Game \<Rightarrow> pid \<Rightarrow> pid list \<Rightarrow> pid list" where
  "crewmates_in_node g reporter others =
     (let xs = filter (\<lambda>p. \<not> imposter (pl g p) \<and> state (pl g p) \<noteq> DEAD) others
      in if imposter (pl g reporter) then xs else xs @ [reporter])"

definition witnessed_report :: "Game \<Rightarrow> pid \<Rightarrow> pid list option \<Rightarrow> pid \<Rightarrow> result" where
  "witnessed_report g reporter dead_bodies w =
     (case get_other_players_in_current_node g reporter of
        None \<Rightarrow> Inl (KeyError, g)
      | Some others \<Rightarrow>
         (let ni = int (length (imposters_in_node g reporter others));
              nc = int (length (crewmates_in_node g reporter others))
          in if ni - nc \<ge> 1
             then Inr (log_report_outcome (vote_out g reporter) reporter (Some w) dead_bodies (Some reporter))
             else if nc - ni \<ge> 1
             then (if imposter (pl g reporter)
                   then Inr (log_report_outcome (vote_out g reporter) reporter (Some w) dead_bodies (Some reporter))
                   else Inr (log_report_outcome (vote_out g w) reporter (Some w) dead_bodies (Some w)))
             else Inr g))"

subsection \<open>Body report: suspicion scores\<close>

text \<open>
  \<^verbatim>\<open>sus_score\<close> is a dict whose keys are fixed when it is created (the living roster,
  in roster order); every later access reads or overwrites an existing key, or raises
  \<^verbatim>\<open>KeyError\<close>.  The model keeps the key list and the values apart.
\<close>

fun dict_keys :: "'a list \<Rightarrow> 'a list" where
  "dict_keys [] = []"
| "dict_keys (x # xs) = x # filter (\<lambda>y. y \<noteq> x) (dict_keys xs)"

definition sus_keys :: "Game \<Rightarrow> pid list" where
  "sus_keys g = dict_keys (filter (\<lambda>p. state (pl g p) \<noteq> DEAD) (players g))"

definition incr :: "pid list \<Rightarrow> (pid \<Rightarrow> int) \<Rightarrow> pid \<Rightarrow> error + (pid \<Rightarrow> int)" where
  "incr keys sc p = (if p \<in> set keys then Inr (sc(p := sc p + 1)) else Inl KeyError)"

fun sus_colocated ::
  "Game \<Rightarrow> pid set \<Rightarrow> pid list \<Rightarrow> pid list \<Rightarrow> (pid \<Rightarrow> int) \<Rightarrow> error + (pid \<Rightarrow> int)" where
  "sus_colocated g dead_set keys [] sc = Inr sc"
| "sus_colocated g dead_set keys (p # ps) sc =
     (if p \<notin> dead_set \<and> state (pl g p) \<noteq> DEAD
      then (case incr keys sc p of
              Inl e \<Rightarrow> Inl e
            | Inr sc' \<Rightarrow> sus_colocated g dead_set keys ps sc')
      else sus_colocated g dead_set keys ps sc)"

definition move_match :: "int \<Rightarrow> string \<Rightarrow> MovementHistory \<Rightarrow> bool" where
  "move_match kill_tick kill_node entry =
     ((tick_mh entry - kill_tick \<le> 2 \<and> previous entry = kill_node) \<or>
      (kill_tick - tick_mh entry < 2 \<and> location entry = kill_node))"

fun sus_movement ::
  "Game \<Rightarrow> int \<Rightarrow> string \<Rightarrow> pid list \<Rightarrow> MovementHistory list \<Rightarrow> (pid \<Rightarrow> int) \<Rightarrow> error + (pid \<Rightarrow> int)" where
  "sus_movement g kill_tick kill_node keys [] sc = Inr sc"
| "sus_movement g kill_tick kill_node keys (entry # es) sc =
     (if state (pl g (subject entry)) = DEAD \<or> state (pl g (witness entry)) = DEAD
      then sus_movement g kill_tick kill_node keys es sc
      else if move_match kill_tick kill_node entry
      then (case incr keys sc (subject entry) of
              Inl e \<Rightarrow> Inl e
            | Inr sc' \<Rightarrow> sus_movement g kill_tick kill_node keys es sc')
      else sus_movement g kill_tick kill_node keys es sc)"

fun sus_social ::
  "Game \<Rightarrow> pid set \<Rightarrow> pid list \<Rightarrow> pid list \<Rightarrow> (pid \<Rightarrow> int) \<Rightarrow> error + (pid \<Rightarrow> int)" where
  "sus_social g dead_set keys [] sc = Inr sc"
| "sus_social g dead_set keys (p # ps) sc =
     (if state (pl g p) = DEAD then sus_social g dead_set keys ps sc
      else if set (player_following (pl g p)) \<inter> dead_set \<noteq> {}
              \<or> (case following_player (pl g p) of None \<Rightarrow> False | Some l \<Rightarrow> l \<in> dead_set)
      then (case incr keys sc p of
              Inl e \<Rightarrow> Inl e
            | Inr sc' \<Rightarrow> sus_social g dead_set keys ps sc')
      else sus_social g dead_set keys ps sc)"

definition sus_vouch :: "Game \<Rightarrow> pid list \<Rightarrow> (pid \<Rightarrow> int) \<Rightarrow> (pid \<Rightarrow> int)" where
  "sus_vouch g keys sc =
     fold (\<lambda>p sc'.
             fold (\<lambda>s sc''. if s \<in> vouch_history (pl g p) \<and> state (pl g p) \<noteq> DEAD
                             then sc''(s := 0) else sc'')
               keys sc')
       (players g) sc"

text \<open>
  The scores at the moment the candidates are selected: the four passes of
  \<^verbatim>\<open>report\<close> over a fresh all-zero dict, in the order of the source.  The table
  after the co-location pass and the table after the movement pass are named, so that
  the movement pass can be spoken of on its own.  \<open>kill_node\<close> is the node the
  recorded killer occupies when the report is resolved; the movement pass compares the
  records with its name and with the tick of the selected kill record.
\<close>

definition sus_after_colocated ::
  "Game \<Rightarrow> pid set \<Rightarrow> KillWitnessHistory \<Rightarrow> error + (pid \<Rightarrow> int)" where
  "sus_after_colocated g dead_set latest_entry =
     (case get_player_current_node g (killer latest_entry) of
        None \<Rightarrow> Inl KeyError
      | Some kill_node \<Rightarrow>
         sus_colocated g dead_set (sus_keys g) (node_players kill_node) (\<lambda>p. 0))"

definition sus_after_movement ::
  "Game \<Rightarrow> pid set \<Rightarrow> KillWitnessHistory \<Rightarrow> error + (pid \<Rightarrow> int)" where
  "sus_after_movement g dead_set latest_entry =
     (case sus_after_colocated g dead_set latest_entry of
        Inl e \<Rightarrow> Inl e
      | Inr sc1 \<Rightarrow>
         sus_movement g (tick_kw latest_entry) (current_location (pl g (killer latest_entry)))
           (sus_keys g) (movement_history g) sc1)"

definition sus_scores :: "Game \<Rightarrow> pid set \<Rightarrow> KillWitnessHistory \<Rightarrow> error + (pid \<Rightarrow> int)" where
  "sus_scores g dead_set latest_entry =
     (case sus_after_movement g dead_set latest_entry of
        Inl e \<Rightarrow> Inl e
      | Inr sc2 \<Rightarrow>
         (case sus_social g dead_set (sus_keys g) (players g) sc2 of
            Inl e \<Rightarrow> Inl e
          | Inr sc3 \<Rightarrow> Inr (sus_vouch g (sus_keys g) sc3)))"

subsection \<open>Body report: candidate selection\<close>

definition possible_suspects :: "Game \<Rightarrow> pid list \<Rightarrow> (pid \<Rightarrow> int) \<Rightarrow> int \<Rightarrow> pid list" where
  "possible_suspects g keys sc max_sus =
     filter (\<lambda>p. state (pl g p) \<noteq> DEAD \<and> max_sus - SUS_WINDOW \<le> sc p \<and> sc p \<le> max_sus) keys"

definition is_suspects_all_in_same_group :: "Game \<Rightarrow> pid list \<Rightarrow> bool" where
  "is_suspects_all_in_same_group g suspects =
     list_all (\<lambda>p. let others = filter (\<lambda>s. s \<noteq> p) suspects
                   in list_all (\<lambda>s. following_player (pl g s) = Some p) others
                      \<or> set others = set (player_following (pl g p)))
       suspects"

definition resolve_suspects :: "Game \<Rightarrow> pid \<Rightarrow> pid list option \<Rightarrow> (pid \<Rightarrow> int) \<Rightarrow> result" where
  "resolve_suspects g reporter dead_bodies sc =
     (let keys = sus_keys g in
      case keys of
        [] \<Rightarrow> Inl (ValueError, g)
      | k # ks \<Rightarrow>
         (let max_sus = fold max (map sc ks) (sc k);
              suspects = possible_suspects g keys sc max_sus
          in if (length suspects \<noteq> 1 \<and> \<not> is_suspects_all_in_same_group g suspects)
                \<or> length suspects = 0
             then Inr (log_report_outcome g reporter None dead_bodies None)
             else (case suspects of
                     [] \<Rightarrow> Inl (IndexError, g)
                   | chosen # _ \<Rightarrow>
                      Inr (log_report_outcome (vote_out g chosen) reporter None dead_bodies (Some chosen)))))"

definition relevant :: "Game \<Rightarrow> pid set \<Rightarrow> KillWitnessHistory list" where
  "relevant g dead_set = filter (\<lambda>entry. victim entry \<in> dead_set) (kill_witness_history g)"

definition body_report :: "Game \<Rightarrow> pid \<Rightarrow> pid list option \<Rightarrow> result" where
  "body_report g reporter dead_bodies =
     (let dead_set = set (bodies_of dead_bodies) in
      case relevant g dead_set of
        [] \<Rightarrow> Inl (IndexError, g)
      | latest_entry # _ \<Rightarrow>
         if witnesses latest_entry \<noteq> []
         then Inr (log_report_outcome (vote_out g (killer latest_entry)) reporter
                     (Some (killer latest_entry)) dead_bodies (Some (killer latest_entry)))
         else (case sus_scores g dead_set latest_entry of
                 Inl e \<Rightarrow> Inl (e, g)
               | Inr sc \<Rightarrow> resolve_suspects g reporter dead_bodies sc))"

definition report :: "Game \<Rightarrow> pid \<Rightarrow> pid list option \<Rightarrow> pid option \<Rightarrow> result" where
  "report g reporter dead_bodies witnessed =
     (let g1 = mark_reported g dead_bodies in
      case witnessed of
        Some w \<Rightarrow> witnessed_report g1 reporter dead_bodies w
      | None \<Rightarrow> body_report g1 reporter dead_bodies)"

definition apply_report :: "Game \<Rightarrow> pid \<Rightarrow> pid list option \<Rightarrow> pid option \<Rightarrow> result" where
  "apply_report g reporter dead_bodies witnessed =
     (if state (pl g reporter) = DEAD then Inr g
      else report g reporter dead_bodies witnessed)"

subsection \<open>\<^verbatim>\<open>_apply_kill\<close>\<close>

definition kill_commit :: "Game \<Rightarrow> pid \<Rightarrow> pid \<Rightarrow> pid list \<Rightarrow> Game" where
  "kill_commit g attacker target occ =
     (let ws = filter (\<lambda>p. p \<noteq> attacker \<and> p \<noteq> target \<and> state (pl g p) \<noteq> DEAD) occ;
          g1 = g\<lparr>kill_witness_history := kill_witness_history g @
                  [\<lparr>tick_kw = tick_counter g, killer = attacker, victim = target, witnesses = ws\<rparr>]\<rparr>;
          g2 = upd_player g1 target (\<lambda>P. P\<lparr>state := DEAD\<rparr>);
          g3 = (if target \<in> set (player_following (pl g2 attacker))
                then upd_player
                       (upd_player g2 attacker
                          (\<lambda>P. P\<lparr>player_following := remove1 target (player_following P)\<rparr>))
                       target (\<lambda>P. P\<lparr>following_player := None\<rparr>)
                else g2);
          g4 = (if following_player (pl g3 attacker) = Some target
                then upd_player g3 attacker (\<lambda>P. P\<lparr>following_player := None\<rparr>)
                else g3)
      in upd_player g4 attacker (\<lambda>P. P\<lparr>kill_cooldown := KILL_COOLDOWN_TICKS\<rparr>))"

definition kill_reports :: "Game \<Rightarrow> pid \<Rightarrow> pid \<Rightarrow> bool \<Rightarrow> pid option \<Rightarrow> pid option \<Rightarrow> result" where
  "kill_reports g attacker target self_report self_report_witness witness_reporter =
     (case (if self_report then report g attacker (Some [target]) self_report_witness else Inr g) of
        Inl e \<Rightarrow> Inl e
      | Inr g1 \<Rightarrow>
         (case witness_reporter of
            None \<Rightarrow> Inr g1
          | Some r \<Rightarrow> report g1 r (Some [target]) (Some attacker)))"

definition apply_kill ::
  "Game \<Rightarrow> pid \<Rightarrow> pid \<Rightarrow> bool \<Rightarrow> pid option \<Rightarrow> pid option \<Rightarrow> result" where
  "apply_kill g attacker target self_report self_report_witness witness_reporter =
     (if state (pl g attacker) = DEAD then Inr g
      else if \<not> imposter (pl g attacker) then Inr g
      else if kill_cooldown (pl g attacker) > 0 then Inr g
      else if state (pl g target) = DEAD then Inr g
      else if imposter (pl g target) then Inr g
      else case get_player_current_node g attacker of
        None \<Rightarrow> Inl (KeyError, g)
      | Some node \<Rightarrow>
         (case get_player_current_node g target of
            None \<Rightarrow> Inl (KeyError, g)
          | Some _ \<Rightarrow>
             if current_location (pl g attacker) \<noteq> current_location (pl g target) then Inr g
             else kill_reports (kill_commit g attacker target (node_players node))
                    attacker target self_report self_report_witness witness_reporter))"

section \<open>\<^verbatim>\<open>Game.apply_action\<close>\<close>

definition log_action :: "Game \<Rightarrow> pid \<Rightarrow> Action \<Rightarrow> Game" where
  "log_action g player action =
     g\<lparr>action_history := action_history g @ [(tick_counter g, player, Act action)]\<rparr>"

fun dispatch :: "Game \<Rightarrow> pid \<Rightarrow> Action \<Rightarrow> result" where
  "dispatch g player (SetStateAction new_state) = Inr (apply_set_state g player new_state)"
| "dispatch g player (MoveAction dest) = apply_move g player dest"
| "dispatch g player (StartTaskAction task) = Inr (apply_start_task g player task)"
| "dispatch g player WorkTaskAction = apply_work_task_tick g player"
| "dispatch g player (KillAction target self_report self_report_witness witness_reporter) =
     apply_kill g player target self_report self_report_witness witness_reporter"
| "dispatch g player (ReportAction dead_bodies witnessed) = apply_report g player dead_bodies witnessed"
| "dispatch g player (FollowAction leader) = Inr (apply_follow g player leader)"
| "dispatch g player NoneAction = Inr g"

definition apply_action :: "Game \<Rightarrow> pid \<Rightarrow> Action \<Rightarrow> result" where
  "apply_action g player action =
     (if action = NoneAction then Inr g
      else dispatch (log_action g player action) player action)"

section \<open>The rest of the stepper and the policy's group operations\<close>

text \<open>
  \<^verbatim>\<open>Game.step\<close> increments the tick counter and ticks the cooldowns
  (\<open>begin_tick\<close>), lets every player apply a state decision, stably sorts the roster
  so that \<^verbatim>\<open>FOLLOWING\<close> players come last (\<open>sort_players\<close>), and then lets every
  player apply a move and an action.  The decisions come from \<^verbatim>\<open>fuzzer.py\<close>, which
  also rewrites the social fields directly: \<^verbatim>\<open>ensure_groups\<close> on first use and
  \<^verbatim>\<open>reroll_group_leader\<close> when a followed leader is dead.  Their random draws are
  parameters of the model: \<open>shuffled\<close> is the outcome of \<^verbatim>\<open>random.shuffle\<close>, and
  \<^verbatim>\<open>random.choice\<close> on a non-empty list is \<open>choice r\<close> for a drawn number \<open>r\<close>.
  Both functions make a group with the same three assignments per member
  (\<open>set_group\<close>).
\<close>

definition begin_tick :: "Game \<Rightarrow> Game" where
  "begin_tick g = tick_cooldowns (g\<lparr>tick_counter := tick_counter g + 1\<rparr>)"

definition sort_players :: "Game \<Rightarrow> Game" where
  "sort_players g =
     g\<lparr>players := filter (\<lambda>p. state (pl g p) \<noteq> FOLLOWING) (players g) @
                   filter (\<lambda>p. state (pl g p) = FOLLOWING) (players g)\<rparr>"

definition choice :: "nat \<Rightarrow> 'a list \<Rightarrow> 'a" where
  "choice r xs = xs ! (r mod length xs)"

function chunks :: "nat \<Rightarrow> 'a list \<Rightarrow> 'a list list" where
  "chunks n xs = (if n = 0 \<or> xs = [] then [] else take n xs # chunks n (drop n xs))"
  by pat_completeness auto
termination
  by (relation "measure (\<lambda>(n, xs). length xs)") auto

definition set_group :: "Game \<Rightarrow> pid \<Rightarrow> pid list \<Rightarrow> Game" where
  "set_group g leader followers =
     fold (\<lambda>f g'. upd_player g' f
              (\<lambda>P. P\<lparr>following_player := Some leader, player_following := [], state := FOLLOWING\<rparr>))
       followers
       (upd_player g leader
          (\<lambda>P. P\<lparr>player_following := followers, following_player := None, state := IDLE\<rparr>))"

fun form_groups :: "Game \<Rightarrow> (nat \<Rightarrow> nat) \<Rightarrow> nat \<Rightarrow> pid list list \<Rightarrow> Game" where
  "form_groups g rnd i [] = g"
| "form_groups g rnd i (grp # grps) =
     (if grp = [] then form_groups g rnd i grps
      else (let leader = choice (rnd i) grp;
                followers = filter (\<lambda>p. p \<noteq> leader) grp
            in form_groups (set_group g leader followers) rnd (Suc i) grps))"

definition ensure_groups :: "Game \<Rightarrow> pid list \<Rightarrow> int \<Rightarrow> (nat \<Rightarrow> nat) \<Rightarrow> result" where
  "ensure_groups g shuffled group_size rnd =
     (if group_size = 0 then Inl (ValueError, g)
      else Inr (form_groups g rnd 0
                  (if group_size < 0 then [] else chunks (nat group_size) shuffled)))"

definition reroll_group_leader :: "Game \<Rightarrow> pid \<Rightarrow> bool \<Rightarrow> nat \<Rightarrow> result" where
  "reroll_group_leader g player include_self r =
     (let other_followers = player_following (pl g player) in
      if other_followers = [] then Inr g
      else case get_player_current_node g player of
        None \<Rightarrow> Inl (KeyError, g)
      | Some current_node \<Rightarrow>
         (let alive_followers0 =
                filter (\<lambda>p. state (pl g p) \<noteq> DEAD \<and> p \<in> set (node_players current_node)) other_followers;
              alive_followers =
                (if include_self \<and> state (pl g player) \<noteq> DEAD
                 then alive_followers0 @ [player] else alive_followers0)
          in if alive_followers = [] then Inr g
             else (let new_leader = choice r alive_followers;
                       rest = filter (\<lambda>p. p \<noteq> new_leader \<and> state (pl g p) \<noteq> DEAD)
                                (other_followers @ [player])
                   in Inr (set_group g new_leader rest))))"

text \<open>
  \<^verbatim>\<open>Game.step\<close> itself.  A decision function reads the state and returns an action;
  \<^verbatim>\<open>decide_state\<close> may also regroup players before it returns, so a decision is
  modelled as returning the action together with the state it leaves.  Each phase
  applies every player's action at once, in roster order; a raise ends the step.
\<close>

type_synonym decide = "Game \<Rightarrow> pid \<Rightarrow> Action \<times> Game"

fun run_phase :: "decide \<Rightarrow> Game \<Rightarrow> pid list \<Rightarrow> result" where
  "run_phase dec g [] = Inr g"
| "run_phase dec g (p # ps) =
     (case dec g p of
        (action, g1) \<Rightarrow>
          (case apply_action g1 p action of
             Inl e \<Rightarrow> Inl e
           | Inr g2 \<Rightarrow> run_phase dec g2 ps))"

definition step :: "decide \<Rightarrow> decide \<Rightarrow> decide \<Rightarrow> Game \<Rightarrow> result" where
  "step decide_state decide_move decide_action g =
     (let g0 = begin_tick g in
      case run_phase decide_state g0 (players g0) of
        Inl e \<Rightarrow> Inl e
      | Inr g1 \<Rightarrow>
         (let g2 = sort_players g1 in
          case run_phase decide_move g2 (players g2) of
            Inl e \<Rightarrow> Inl e
          | Inr g3 \<Rightarrow> run_phase decide_action g3 (players g3)))"

section \<open>Vocabulary of the statements\<close>

text \<open>
  \<open>new_player\<close> is the \<^verbatim>\<open>Player\<close> constructor with its defaults, as
  \<^verbatim>\<open>Game.__init__\<close> calls it before it places the player; in a \<open>fresh\<close> game every
  player is still as constructed, stands on a node of the map, and the histories are
  empty.  \<open>reachable allowed\<close>
  holds of the states that arise from a fresh game by the steps above, in any
  interleaving and with any random draws, where the engine is only given actions that
  satisfy \<open>allowed\<close>.  A state in which a handler has raised is the state at the raise.
  \<open>star_safe\<close> admits every action except a \<^verbatim>\<open>FollowAction\<close> that names a leader
  (the action the source marks as unused; no decision function of the policy returns it).
\<close>

definition new_player :: "bool \<Rightarrow> Task list \<Rightarrow> string \<Rightarrow> Player" where
  "new_player imp ts loc =
     \<lparr>imposter = imp, tasks = ts, state = IDLE, current_location = loc, current_task = None,
      ticks_elapsed = 0, dislike_visited_node = Map.empty, following_player = None,
      player_following = [], vouch_history = {}, kill_cooldown = 0, vent_cooldown = 0,
      voted_out = False, dead_body_reported = False\<rparr>"

definition fresh :: "Game \<Rightarrow> bool" where
  "fresh g =
     ((\<forall>p. \<exists>imp ts loc. pl g p = new_player imp ts loc) \<and>
      (\<forall>p. nodes g (current_location (pl g p)) \<noteq> None) \<and>
      movement_history g = [] \<and> kill_witness_history g = [] \<and>
      tick_counter g = 0 \<and> action_history g = [])"

definition star_safe :: "Action \<Rightarrow> bool" where
  "star_safe a = (case a of FollowAction (Some l) \<Rightarrow> False | _ \<Rightarrow> True)"

inductive reachable :: "(Action \<Rightarrow> bool) \<Rightarrow> Game \<Rightarrow> bool" for allowed where
  r_fresh: "fresh g \<Longrightarrow> reachable allowed g"
| r_action: "reachable allowed g \<Longrightarrow> allowed a \<Longrightarrow> reachable allowed (final (apply_action g p a))"
| r_tick: "reachable allowed g \<Longrightarrow> reachable allowed (begin_tick g)"
| r_sort: "reachable allowed g \<Longrightarrow> reachable allowed (sort_players g)"
| r_groups: "reachable allowed g \<Longrightarrow> reachable allowed (final (ensure_groups g shuffled group_size rnd))"
| r_reroll: "reachable allowed g \<Longrightarrow> reachable allowed (final (reroll_group_leader g player include_self r))"

text \<open>
  A decision function stays \<open>within\<close> the allowed actions when, from a reachable state,
  it returns an allowed action and leaves a reachable state.
\<close>

definition decides_within :: "(Action \<Rightarrow> bool) \<Rightarrow> decide \<Rightarrow> bool" where
  "decides_within allowed dec =
     (\<forall>g p. reachable allowed g \<longrightarrow>
        allowed (fst (dec g p)) \<and> reachable allowed (snd (dec g p)))"

text \<open>
  The player invariants: \<open>dislike_of\<close> reads a dislike weight as the code does
  (\<^verbatim>\<open>get(name, 0.0)\<close>); \<open>player_ok\<close> bounds the weights and the cooldowns and
  forbids a leader reference together with a non-empty follower list.  \<open>idle_clear\<close>
  says that a player with no active task has no elapsed ticks, and \<open>kill_log_ordered\<close>
  that the kill log is in tick order and not ahead of the tick counter, \<open>located\<close> that
  every player's current location is a node of the map.
\<close>

definition dislike_of :: "Player \<Rightarrow> string \<Rightarrow> rat" where
  "dislike_of P loc = (case dislike_visited_node P loc of None \<Rightarrow> 0 | Some d \<Rightarrow> d)"

definition player_ok :: "Player \<Rightarrow> bool" where
  "player_ok P =
     ((\<forall>loc. 0 \<le> dislike_of P loc \<and> dislike_of P loc \<le> MAX_DISLIKE) \<and>
      0 \<le> kill_cooldown P \<and> 0 \<le> vent_cooldown P \<and>
      \<not> (following_player P \<noteq> None \<and> player_following P \<noteq> []))"

definition game_ok :: "Game \<Rightarrow> bool" where
  "game_ok g = (\<forall>p. player_ok (pl g p))"

definition idle_clear :: "Game \<Rightarrow> bool" where
  "idle_clear g = (\<forall>p. current_task (pl g p) = None \<longrightarrow> ticks_elapsed (pl g p) = 0)"

definition located :: "Game \<Rightarrow> bool" where
  "located g = (\<forall>p. nodes g (current_location (pl g p)) \<noteq> None)"

definition kill_log_ordered :: "Game \<Rightarrow> bool" where
  "kill_log_ordered g =
     (sorted (map tick_kw (kill_witness_history g)) \<and>
      list_all (\<lambda>e. tick_kw e \<le> tick_counter g) (kill_witness_history g))"

text \<open>
  \<open>move_legal\<close> is the condition under which \<^verbatim>\<open>_apply_move\<close> commits.
  \<open>tally g r side\<close> counts the living players of one side that stand where the reporter
  \<open>r\<close> stands, the reporter counted on its own side.  \<open>eliminates g g' x\<close> says that from
  \<open>g\<close> to \<open>g'\<close> exactly the player \<open>x\<close> (nobody for \<open>None\<close>) became \<^verbatim>\<open>DEAD\<close> and
  voted-out.  \<open>spec_move_match\<close> is the movement correlation in the words of the
  specification: within two ticks of the kill, and the kill location as origin or as
  destination.
\<close>

definition move_legal :: "Game \<Rightarrow> pid \<Rightarrow> string \<Rightarrow> bool" where
  "move_legal g p d =
     (state (pl g p) \<noteq> DEAD \<and> nodes g d \<noteq> None \<and> nodes g (current_location (pl g p)) \<noteq> None \<and>
      (case edges g (current_location (pl g p)) of
         None \<Rightarrow> False
       | Some m \<Rightarrow> (case m d of
                      None \<Rightarrow> False
                    | Some v \<Rightarrow> \<not> (v \<and> (\<not> imposter (pl g p) \<or> vent_cooldown (pl g p) > 0)))))"

definition tally :: "Game \<Rightarrow> pid \<Rightarrow> bool \<Rightarrow> int" where
  "tally g r side =
     int (length (filter (\<lambda>p. p \<noteq> r \<and> imposter (pl g p) = side \<and> state (pl g p) \<noteq> DEAD)
                    (occupants g (current_location (pl g r)))))
     + (if imposter (pl g r) = side then 1 else 0)"

definition eliminates :: "Game \<Rightarrow> Game \<Rightarrow> pid option \<Rightarrow> bool" where
  "eliminates g g' x =
     (\<forall>q. state (pl g' q) = (if Some q = x then DEAD else state (pl g q)) \<and>
          voted_out (pl g' q) = (if Some q = x then True else voted_out (pl g q)))"


text \<open>
  Frame relations between a state and a later one: the action log only grew
  (\<open>appends\<close>); the players differ at most in state, voted-out and body-reported
  (\<open>verdict_only\<close>); active tasks and elapsed ticks are the same (\<open>task_frame\<close>); the kill
  log and the tick counter are the same (\<open>kw_frame\<close>); the map and the players' locations
  are the same (\<open>loc_frame\<close>).
\<close>

definition appends :: "Game \<Rightarrow> Game \<Rightarrow> bool" where
  "appends g g' = (\<exists>zs. action_history g' = action_history g @ zs)"

definition verdict_only :: "Game \<Rightarrow> Game \<Rightarrow> bool" where
  "verdict_only g g' =
     (\<forall>q. \<exists>s v b. pl g' q = (pl g q)\<lparr>state := s, voted_out := v, dead_body_reported := b\<rparr>)"

definition task_frame :: "Game \<Rightarrow> Game \<Rightarrow> bool" where
  "task_frame g g' =
     (\<forall>q. current_task (pl g' q) = current_task (pl g q) \<and>
          ticks_elapsed (pl g' q) = ticks_elapsed (pl g q))"

definition kw_frame :: "Game \<Rightarrow> Game \<Rightarrow> bool" where
  "kw_frame g g' =
     (kill_witness_history g' = kill_witness_history g \<and> tick_counter g' = tick_counter g)"

definition loc_frame :: "Game \<Rightarrow> Game \<Rightarrow> bool" where
  "loc_frame g g' =
     (nodes g' = nodes g \<and> (\<forall>q. current_location (pl g' q) = current_location (pl g q)))"

section \<open>Example states\<close>

text \<open>
  \<open>ex_game\<close> is a freshly loaded game on the map \<^verbatim>\<open>A -- B\<close>: crewmates 0 and 3 and
  impostor 1 in \<open>A\<close>, crewmate 2 and impostor 4 in \<open>B\<close>; crewmate 0 is assigned
  \<open>task_a\<close> and \<open>task_b\<close>.  In \<open>ex_game_dead\<close> crewmate 2 is dead.  \<open>ex_killed\<close>: impostor
  1 has killed crewmate 0 in front of crewmate 3.  \<open>ex_working\<close>: crewmate 0 has started
  \<open>task_a\<close> and worked on it for one tick.  \<open>ex_follow\<close>: player 2 follows player 0,
  then player 0 follows player 3.  \<open>ex_grouped\<close>: a move, the start of a tick, and the
  policy's grouping.  \<open>ex_vouch\<close>: impostor 4 has killed crewmate 2 unseen in \<open>B\<close>,
  crewmate 0 has walked in afterwards, and crewmate 3 vouches for crewmate 0.
\<close>

definition task_a :: Task where
  "task_a = \<lparr>tname = ''wires'', tlength = LONG, visual = False, tlocation = ''A'', next_task = None\<rparr>"

definition task_b :: Task where
  "task_b = \<lparr>tname = ''scan'', tlength = MEDIUM, visual = True, tlocation = ''A'', next_task = None\<rparr>"

definition ex_game :: Game where
  "ex_game =
     \<lparr>nodes = [''A'' \<mapsto> \<lparr>node_players = [0, 1, 3], vent = False\<rparr>,
               ''B'' \<mapsto> \<lparr>node_players = [2, 4], vent = False\<rparr>],
      edges = [''A'' \<mapsto> [''B'' \<mapsto> False], ''B'' \<mapsto> [''A'' \<mapsto> False]],
      game_tasks = [''wires'' \<mapsto> task_a, ''scan'' \<mapsto> task_b],
      players = [0, 1, 2, 3, 4],
      pl = (\<lambda>p. new_player False [] ''A'')
             (0 := new_player False [task_a, task_b] ''A'',
              1 := new_player True [] ''A'', 2 := new_player False [] ''B'',
              4 := new_player True [] ''B''),
      movement_history = [], kill_witness_history = [], tick_counter = 0, action_history = []\<rparr>"

definition ex_game_dead :: Game where
  "ex_game_dead = upd_player ex_game 2 (\<lambda>P. P\<lparr>state := DEAD\<rparr>)"

definition ex_killed :: Game where
  "ex_killed = final (apply_action ex_game 1 (KillAction 0 False None None))"

definition ex_working :: Game where
  "ex_working =
     final (apply_action (final (apply_action ex_game 0 (StartTaskAction task_a))) 0 WorkTaskAction)"

definition ex_follow :: Game where
  "ex_follow =
     final (apply_action (final (apply_action ex_game 2 (FollowAction (Some 0)))) 0
              (FollowAction (Some 3)))"

definition ex_grouped :: Game where
  "ex_grouped =
     final (ensure_groups (begin_tick (final (apply_action ex_game 0 (MoveAction ''B''))))
              [3, 0, 4, 1, 2] 4 (\<lambda>i. i))"

definition ex_vouch :: Game where
  "ex_vouch =
     (upd_player (upd_player (upd_player ex_game
         2 (\<lambda>P. P\<lparr>state := DEAD\<rparr>))
         0 (\<lambda>P. P\<lparr>current_location := ''B''\<rparr>))
         3 (\<lambda>P. P\<lparr>vouch_history := {0}\<rparr>))
     \<lparr>nodes := [''A'' \<mapsto> \<lparr>node_players = [1, 3], vent = False\<rparr>,
                ''B'' \<mapsto> \<lparr>node_players = [2, 4, 0], vent = False\<rparr>],
      movement_history := [\<lparr>tick_mh = 0, witness = 0, subject = 4, previous = ''A'', location = ''B''\<rparr>],
      kill_witness_history := [\<lparr>tick_kw = 0, killer = 4, victim = 2, witnesses = []\<rparr>]\<rparr>"

section \<open>Frame lemmas\<close>

lemma upd_player_simps [simp]:
  "pl (upd_player g p f) = (pl g)(p := f (pl g p))"
  "nodes (upd_player g p f) = nodes g"
  "edges (upd_player g p f) = edges g"
  "game_tasks (upd_player g p f) = game_tasks g"
  "players (upd_player g p f) = players g"
  "movement_history (upd_player g p f) = movement_history g"
  "kill_witness_history (upd_player g p f) = kill_witness_history g"
  "tick_counter (upd_player g p f) = tick_counter g"
  "action_history (upd_player g p f) = action_history g"
  by (simp_all add: upd_player_def)

lemma upd_node_simps [simp]:
  "pl (upd_node g n f) = pl g"
  "edges (upd_node g n f) = edges g"
  "game_tasks (upd_node g n f) = game_tasks g"
  "players (upd_node g n f) = players g"
  "movement_history (upd_node g n f) = movement_history g"
  "kill_witness_history (upd_node g n f) = kill_witness_history g"
  "tick_counter (upd_node g n f) = tick_counter g"
  "action_history (upd_node g n f) = action_history g"
  by (simp_all add: upd_node_def split: option.splits)

lemma log_report_outcome_simps [simp]:
  "pl (log_report_outcome g r w d v) = pl g"
  "nodes (log_report_outcome g r w d v) = nodes g"
  "players (log_report_outcome g r w d v) = players g"
  "movement_history (log_report_outcome g r w d v) = movement_history g"
  "kill_witness_history (log_report_outcome g r w d v) = kill_witness_history g"
  "tick_counter (log_report_outcome g r w d v) = tick_counter g"
  "action_history (log_report_outcome g r w d v) =
     action_history g @ [(tick_counter g, r, REPORT_OUTCOME r w d v)]"
  by (simp_all add: log_report_outcome_def)

lemma vote_out_simps [simp]:
  "pl (vote_out g p) = (pl g)(p := (pl g p)\<lparr>state := DEAD, voted_out := True\<rparr>)"
  "nodes (vote_out g p) = nodes g"
  "players (vote_out g p) = players g"
  "movement_history (vote_out g p) = movement_history g"
  "kill_witness_history (vote_out g p) = kill_witness_history g"
  "tick_counter (vote_out g p) = tick_counter g"
  "action_history (vote_out g p) = action_history g"
  by (simp_all add: vote_out_def)

lemma fold_upd_player_frame:
  "action_history (fold (\<lambda>p g'. upd_player g' p (f p)) ps g) = action_history g"
  "nodes (fold (\<lambda>p g'. upd_player g' p (f p)) ps g) = nodes g"
  "players (fold (\<lambda>p g'. upd_player g' p (f p)) ps g) = players g"
  "movement_history (fold (\<lambda>p g'. upd_player g' p (f p)) ps g) = movement_history g"
  "kill_witness_history (fold (\<lambda>p g'. upd_player g' p (f p)) ps g) = kill_witness_history g"
  "tick_counter (fold (\<lambda>p g'. upd_player g' p (f p)) ps g) = tick_counter g"
  "game_tasks (fold (\<lambda>p g'. upd_player g' p (f p)) ps g) = game_tasks g"
  "edges (fold (\<lambda>p g'. upd_player g' p (f p)) ps g) = edges g"
  by (induction ps arbitrary: g; simp)+

lemma mark_reported_simps [simp]:
  "action_history (mark_reported g d) = action_history g"
  "nodes (mark_reported g d) = nodes g"
  "players (mark_reported g d) = players g"
  "movement_history (mark_reported g d) = movement_history g"
  "kill_witness_history (mark_reported g d) = kill_witness_history g"
  "tick_counter (mark_reported g d) = tick_counter g"
  by (simp_all add: mark_reported_def fold_upd_player_frame)

lemma log_action_simps [simp]:
  "pl (log_action g p a) = pl g"
  "nodes (log_action g p a) = nodes g"
  "players (log_action g p a) = players g"
  "movement_history (log_action g p a) = movement_history g"
  "kill_witness_history (log_action g p a) = kill_witness_history g"
  "tick_counter (log_action g p a) = tick_counter g"
  "edges (log_action g p a) = edges g"
  "game_tasks (log_action g p a) = game_tasks g"
  "action_history (log_action g p a) = action_history g @ [(tick_counter g, p, Act a)]"
  by (simp_all add: log_action_def)

lemma kill_commit_history [simp]:
  "action_history (kill_commit g a t occ) = action_history g"
  by (simp add: kill_commit_def Let_def)

lemma kill_commit_kw:
  "kill_witness_history (kill_commit g a t occ) =
     kill_witness_history g @
       [\<lparr>tick_kw = tick_counter g, killer = a, victim = t,
         witnesses = filter (\<lambda>p. p \<noteq> a \<and> p \<noteq> t \<and> state (pl g p) \<noteq> DEAD) occ\<rparr>]"
  "tick_counter (kill_commit g a t occ) = tick_counter g"
  by (simp_all add: kill_commit_def Let_def)

lemma new_player_fields [simp]:
  "imposter (new_player i ts l) = i"
  "tasks (new_player i ts l) = ts"
  "state (new_player i ts l) = IDLE"
  "current_location (new_player i ts l) = l"
  "current_task (new_player i ts l) = None"
  "ticks_elapsed (new_player i ts l) = 0"
  "dislike_visited_node (new_player i ts l) = Map.empty"
  "following_player (new_player i ts l) = None"
  "player_following (new_player i ts l) = []"
  "vouch_history (new_player i ts l) = {}"
  "kill_cooldown (new_player i ts l) = 0"
  "vent_cooldown (new_player i ts l) = 0"
  "voted_out (new_player i ts l) = False"
  "dead_body_reported (new_player i ts l) = False"
  by (simp_all add: new_player_def)

lemma fold_mark_pl:
  "pl (fold (\<lambda>p g'. upd_player g' p (\<lambda>P. P\<lparr>dead_body_reported := True\<rparr>)) bs g) q =
     (if q \<in> set bs then (pl g q)\<lparr>dead_body_reported := True\<rparr> else pl g q)"
  by (induction bs arbitrary: g) auto

lemma pl_mark_reported:
  "pl (mark_reported g d) q =
     (if q \<in> set (bodies_of d) then (pl g q)\<lparr>dead_body_reported := True\<rparr> else pl g q)"
  by (simp add: mark_reported_def fold_mark_pl)

lemma mark_reported_fields [simp]:
  "state (pl (mark_reported g d) q) = state (pl g q)"
  "imposter (pl (mark_reported g d) q) = imposter (pl g q)"
  "voted_out (pl (mark_reported g d) q) = voted_out (pl g q)"
  "current_location (pl (mark_reported g d) q) = current_location (pl g q)"
  "following_player (pl (mark_reported g d) q) = following_player (pl g q)"
  "player_following (pl (mark_reported g d) q) = player_following (pl g q)"
  "vouch_history (pl (mark_reported g d) q) = vouch_history (pl g q)"
  by (simp_all add: pl_mark_reported)

lemma filter_remove1_other:
  "filter (\<lambda>w. w \<noteq> p \<and> Q w) (remove1 p xs) = filter (\<lambda>w. w \<noteq> p \<and> Q w) xs"
  by (induction xs) auto

lemma occupants_upd_node:
  "occupants (upd_node g n f) n' =
     (if n' = n \<and> nodes g n \<noteq> None then f (occupants g n) else occupants g n')"
  by (auto simp: occupants_def upd_node_def split: option.splits)

lemma occupants_upd_player [simp]: "occupants (upd_player g p f) n = occupants g n"
  by (simp add: occupants_def)

lemma occupants_transfer:
  "filter (\<lambda>w. w \<noteq> p \<and> Q w) (occupants (transfer_player g p s d) d) =
   filter (\<lambda>w. w \<noteq> p \<and> Q w) (occupants g d)"
  by (simp add: transfer_player_def Let_def occupants_upd_node filter_remove1_other)

lemma pl_transfer [simp]:
  "pl (transfer_player g p s d) = (pl g)(p := (pl g p)\<lparr>current_location := d\<rparr>)"
  by (simp add: transfer_player_def Let_def)

lemma transfer_frame [simp]:
  "movement_history (transfer_player g p s d) = movement_history g"
  "tick_counter (transfer_player g p s d) = tick_counter g"
  by (simp_all add: transfer_player_def Let_def)

lemma bump_frame [simp]:
  "movement_history (bump_dislike g p d) = movement_history g"
  "tick_counter (bump_dislike g p d) = tick_counter g"
  "nodes (bump_dislike g p d) = nodes g"
  "occupants (bump_dislike g p d) n = occupants g n"
  "state (pl (bump_dislike g p d) q) = state (pl g q)"
  by (simp_all add: bump_dislike_def Let_def)

text \<open>
  \<^verbatim>\<open>_apply_kill\<close> runs up to two reports after the kill itself; a relation that is
  reflexive, transitive and kept by every report is kept by that tail.
\<close>

lemma kill_reports_rel:
  assumes refl: "\<And>g. R g g"
    and trans: "\<And>a b c. R a b \<Longrightarrow> R b c \<Longrightarrow> R a c"
    and rep: "\<And>g r d w. R g (final (report g r d w))"
  shows "R g (final (kill_reports g a t sr srw wr))"
proof -
  have 1: "R g (final (if sr then report g a (Some [t]) srw else Inr g))"
    by (simp add: refl rep)
  show ?thesis
  proof (cases "if sr then report g a (Some [t]) srw else Inr g")
    case (Inl e)
    with 1 show ?thesis by (simp add: kill_reports_def)
  next
    case (Inr g1)
    with 1 have g1: "R g g1" by simp
    show ?thesis
    proof (cases wr)
      case None
      with Inr g1 show ?thesis by (simp add: kill_reports_def)
    next
      case (Some r)
      have "R g (final (report g1 r (Some [t]) (Some a)))"
        using g1 rep by (rule trans)
      with Inr Some show ?thesis by (simp add: kill_reports_def)
    qed
  qed
qed

subsection \<open>The action log only grows\<close>

lemma appends_refl [simp]: "appends g g" by (simp add: appends_def)

lemma appends_trans: "appends g g' \<Longrightarrow> appends g' g'' \<Longrightarrow> appends g g''"
  by (auto simp: appends_def)

lemma appends_eq: "action_history g' = action_history g \<Longrightarrow> appends g g'"
  by (simp add: appends_def)

lemma witnessed_report_appends: "appends g (final (witnessed_report g r d w))"
  by (auto simp: witnessed_report_def appends_def Let_def split: option.splits)

lemma resolve_suspects_appends: "appends g (final (resolve_suspects g r d sc))"
  by (auto simp: resolve_suspects_def appends_def Let_def split: option.splits list.splits)

lemma body_report_appends: "appends g (final (body_report g r d))"
  using resolve_suspects_appends
  by (auto simp: body_report_def  Let_def appends_def split: option.splits list.splits sum.splits)

lemma report_appends: "appends g (final (report g r d w))"
proof -
  have "appends g (mark_reported g d)" by (simp add: appends_eq)
  moreover have "appends (mark_reported g d) (final (report g r d w))"
    by (auto simp: report_def Let_def witnessed_report_appends body_report_appends split: option.splits)
  ultimately show ?thesis by (rule appends_trans)
qed

lemma apply_move_appends: "appends g (final (apply_move g p d))"
  by (auto simp: apply_move_def Let_def transfer_player_def bump_dislike_def intro!: appends_eq
       split: option.splits)

lemma apply_work_appends: "appends g (final (apply_work_task_tick g p))"
  by (auto simp: apply_work_task_tick_def Let_def enqueue_next_def grant_vouches_def
        fold_upd_player_frame intro!: appends_eq
       split: option.splits list.splits sum.splits)

lemma kill_reports_appends: "appends g (final (kill_reports g a t sr srw wr))"
proof (cases "if sr then report g a (Some [t]) srw else Inr g")
  case (Inl e)
  have "appends g (final (if sr then report g a (Some [t]) srw else Inr g))"
    by (simp add: report_appends)
  with Inl show ?thesis by (simp add: kill_reports_def)
next
  case (Inr g1)
  have "appends g (final (if sr then report g a (Some [t]) srw else Inr g))"
    by (simp add: report_appends)
  with Inr have 1: "appends g g1" by simp
  show ?thesis
  proof (cases wr)
    case None
    with Inr 1 show ?thesis by (simp add: kill_reports_def)
  next
    case (Some r)
    have "appends g1 (final (report g1 r (Some [t]) (Some a)))" by (rule report_appends)
    with 1 have "appends g (final (report g1 r (Some [t]) (Some a)))" by (rule appends_trans)
    with Inr Some show ?thesis by (simp add: kill_reports_def)
  qed
qed

lemma apply_kill_appends: "appends g (final (apply_kill g a t sr srw wr))"
proof -
  have "appends g (final (kill_reports (kill_commit g a t occ) a t sr srw wr))" for occ
    using kill_reports_appends [of "kill_commit g a t occ" a t sr srw wr]
    by (simp add: appends_def)
  then show ?thesis
    by (simp add: apply_kill_def split: option.splits)
qed

lemma dispatch_appends: "appends g (final (dispatch g p a))"
proof (cases a)
  case (ReportAction d w)
  then show ?thesis by (simp add: apply_report_def report_appends)
qed (simp_all add: apply_move_appends apply_work_appends apply_kill_appends
       apply_set_state_def apply_start_task_def apply_follow_def Let_def appends_eq
       split: option.splits)

lemma apply_action_dead:
  "state (pl g p) = DEAD \<Longrightarrow> a \<noteq> NoneAction \<Longrightarrow> apply_action g p a = Inr (log_action g p a)"
  by (cases a)
     (simp_all add: apply_action_def log_action_def apply_set_state_def apply_move_def
        apply_start_task_def apply_work_task_tick_def apply_kill_def apply_report_def apply_follow_def)

subsection \<open>Reports change verdict fields only\<close>

lemma verdict_only_refl [simp]: "verdict_only g g"
proof -
  have "pl g q = (pl g q)\<lparr>state := state (pl g q), voted_out := voted_out (pl g q),
          dead_body_reported := dead_body_reported (pl g q)\<rparr>" for q by simp
  then show ?thesis unfolding verdict_only_def by blast
qed

lemma verdict_only_trans: "verdict_only g g' \<Longrightarrow> verdict_only g' g'' \<Longrightarrow> verdict_only g g''"
  unfolding verdict_only_def
proof
  fix q
  assume a: "\<forall>q. \<exists>s v b. pl g' q = (pl g q)\<lparr>state := s, voted_out := v, dead_body_reported := b\<rparr>"
    and b: "\<forall>q. \<exists>s v b. pl g'' q = (pl g' q)\<lparr>state := s, voted_out := v, dead_body_reported := b\<rparr>"
  from a obtain s v b where 1: "pl g' q = (pl g q)\<lparr>state := s, voted_out := v, dead_body_reported := b\<rparr>"
    by blast
  from b obtain s' v' b' where 2: "pl g'' q = (pl g' q)\<lparr>state := s', voted_out := v', dead_body_reported := b'\<rparr>"
    by blast
  have "pl g'' q = (pl g q)\<lparr>state := s', voted_out := v', dead_body_reported := b'\<rparr>"
    using 1 2 by simp
  then show "\<exists>s v b. pl g'' q = (pl g q)\<lparr>state := s, voted_out := v, dead_body_reported := b\<rparr>"
    by blast
qed

lemma verdict_only_vote_out: "verdict_only g (vote_out g x)"
proof -
  have "pl (vote_out g x) q = (pl g q)\<lparr>state := (if q = x then DEAD else state (pl g q)),
          voted_out := (if q = x then True else voted_out (pl g q)),
          dead_body_reported := dead_body_reported (pl g q)\<rparr>" for q by simp
  then show ?thesis unfolding verdict_only_def by blast
qed

lemma verdict_only_mark: "verdict_only g (mark_reported g d)"
proof -
  have "pl (mark_reported g d) q = (pl g q)\<lparr>state := state (pl g q),
          voted_out := voted_out (pl g q),
          dead_body_reported := (if q \<in> set (bodies_of d) then True else dead_body_reported (pl g q))\<rparr>" for q
    by (simp add: pl_mark_reported)
  then show ?thesis unfolding verdict_only_def by blast
qed

lemma verdict_only_log: "verdict_only g g' \<Longrightarrow> verdict_only g (log_report_outcome g' r w d v)"
  by (simp add: verdict_only_def)

lemma witnessed_report_verdict: "verdict_only g (final (witnessed_report g r d w))"
  by (simp add: witnessed_report_def Let_def verdict_only_log verdict_only_vote_out
        split: option.splits)

lemma resolve_suspects_verdict: "verdict_only g (final (resolve_suspects g r d sc))"
  by (simp add: resolve_suspects_def Let_def verdict_only_log verdict_only_vote_out
        split: list.splits)

lemma body_report_verdict: "verdict_only g (final (body_report g r d))"
  by (simp add: body_report_def Let_def verdict_only_log verdict_only_vote_out
        resolve_suspects_verdict split: list.splits sum.splits)

lemma report_verdict: "verdict_only g (final (report g r d w))"
proof -
  have "verdict_only (mark_reported g d) (final (report g r d w))"
    by (simp add: report_def Let_def witnessed_report_verdict body_report_verdict split: option.splits)
  with verdict_only_mark show ?thesis by (rule verdict_only_trans)
qed

lemma kill_reports_verdict: "verdict_only g (final (kill_reports g a t sr srw wr))"
proof (cases "if sr then report g a (Some [t]) srw else Inr g")
  case (Inl e)
  have "verdict_only g (final (if sr then report g a (Some [t]) srw else Inr g))"
    by (simp add: report_verdict)
  with Inl show ?thesis by (simp add: kill_reports_def)
next
  case (Inr g1)
  have "verdict_only g (final (if sr then report g a (Some [t]) srw else Inr g))"
    by (simp add: report_verdict)
  with Inr have 1: "verdict_only g g1" by simp
  show ?thesis
  proof (cases wr)
    case None
    with Inr 1 show ?thesis by (simp add: kill_reports_def)
  next
    case (Some r)
    have "verdict_only g1 (final (report g1 r (Some [t]) (Some a)))" by (rule report_verdict)
    with 1 have "verdict_only g (final (report g1 r (Some [t]) (Some a)))" by (rule verdict_only_trans)
    with Inr Some show ?thesis by (simp add: kill_reports_def)
  qed
qed

section \<open>Invariants of the reachable states\<close>

subsection \<open>Dislike weights, cooldowns and stars\<close>

lemma player_ok_verdict [simp]:
  "player_ok (P\<lparr>state := s, voted_out := v, dead_body_reported := b\<rparr>) = player_ok P"
  by (simp add: player_ok_def dislike_of_def)

lemma game_ok_verdict: "verdict_only g g' \<Longrightarrow> game_ok g \<Longrightarrow> game_ok g'"
  unfolding game_ok_def verdict_only_def
  by (metis player_ok_verdict)

lemma player_ok_frame [simp]:
  "player_ok (P\<lparr>state := s\<rparr>) = player_ok P"
  "player_ok (P\<lparr>current_task := ct\<rparr>) = player_ok P"
  "player_ok (P\<lparr>tasks := ts\<rparr>) = player_ok P"
  "player_ok (P\<lparr>ticks_elapsed := n\<rparr>) = player_ok P"
  "player_ok (P\<lparr>vouch_history := vh\<rparr>) = player_ok P"
  "player_ok (P\<lparr>current_location := l\<rparr>) = player_ok P"
  "player_ok (P\<lparr>voted_out := v\<rparr>) = player_ok P"
  "player_ok (P\<lparr>dead_body_reported := b\<rparr>) = player_ok P"
  by (simp_all add: player_ok_def dislike_of_def)

lemma player_ok_changes:
  "player_ok P \<Longrightarrow> player_ok (P\<lparr>kill_cooldown := KILL_COOLDOWN_TICKS\<rparr>)"
  "player_ok P \<Longrightarrow> player_ok (P\<lparr>vent_cooldown := VENT_COOLDOWN_TICKS\<rparr>)"
  "player_ok P \<Longrightarrow> player_ok (P\<lparr>kill_cooldown := max (kill_cooldown P - 1) 0,
                                     vent_cooldown := max (vent_cooldown P - 1) 0\<rparr>)"
  "player_ok P \<Longrightarrow> player_ok (P\<lparr>following_player := None\<rparr>)"
  "player_ok P \<Longrightarrow> player_ok (P\<lparr>player_following := remove1 x (player_following P)\<rparr>)"
  "player_ok P \<Longrightarrow> player_ok (P\<lparr>player_following := fs, following_player := None, state := s\<rparr>)"
  "player_ok P \<Longrightarrow> player_ok (P\<lparr>following_player := Some l, player_following := [], state := s\<rparr>)"
  by (auto simp: player_ok_def dislike_of_def KILL_COOLDOWN_TICKS_def VENT_COOLDOWN_TICKS_def)

lemma player_ok_dislike:
  "player_ok P \<Longrightarrow>
   player_ok (P\<lparr>dislike_visited_node :=
      (dislike_visited_node P)(d \<mapsto> min (dislike_of P d + DELTA_DISLIKE) MAX_DISLIKE)\<rparr>)"
  by (auto simp: player_ok_def dislike_of_def DELTA_DISLIKE_def MAX_DISLIKE_def min_def
        add_nonneg_nonneg)

lemma game_ok_upd:
  "game_ok g \<Longrightarrow> (\<And>P. player_ok P \<Longrightarrow> player_ok (f P)) \<Longrightarrow> game_ok (upd_player g p f)"
  by (simp add: game_ok_def)

lemma game_ok_fields:
  "game_ok g \<Longrightarrow> game_ok (g\<lparr>movement_history := mh\<rparr>)"
  "game_ok g \<Longrightarrow> game_ok (g\<lparr>kill_witness_history := kh\<rparr>)"
  "game_ok g \<Longrightarrow> game_ok (g\<lparr>tick_counter := n\<rparr>)"
  "game_ok g \<Longrightarrow> game_ok (g\<lparr>players := ps\<rparr>)"
  "game_ok g \<Longrightarrow> game_ok (log_action g p a)"
  by (simp_all add: game_ok_def)

lemma game_ok_fold:
  "(\<And>q P. player_ok P \<Longrightarrow> player_ok (f q P)) \<Longrightarrow> game_ok g \<Longrightarrow>
   game_ok (fold (\<lambda>q g'. upd_player g' q (f q)) qs g)"
proof (induction qs arbitrary: g)
  case Nil
  then show ?case by simp
next
  case (Cons q qs)
  have "game_ok (upd_player g q (f q))"
    using Cons.prems by (simp add: game_ok_upd)
  with Cons.IH Cons.prems(1) show ?case by simp
qed

lemma game_ok_set_state: "game_ok g \<Longrightarrow> game_ok (apply_set_state g p s)"
  by (simp add: apply_set_state_def game_ok_upd)

lemma game_ok_start_task: "game_ok g \<Longrightarrow> game_ok (apply_start_task g p t)"
  by (simp add: apply_start_task_def Let_def game_ok_upd)

lemma game_ok_bump: "game_ok g \<Longrightarrow> game_ok (bump_dislike g p d)"
proof -
  assume g: "game_ok g"
  then have "player_ok (pl g p)" by (simp add: game_ok_def)
  from player_ok_dislike [OF this, of d]
  have "player_ok ((pl g p)\<lparr>dislike_visited_node :=
      (dislike_visited_node (pl g p))(d \<mapsto> min (dislike_of (pl g p) d + DELTA_DISLIKE) MAX_DISLIKE)\<rparr>)" .
  with g show ?thesis
    by (simp add: bump_dislike_def Let_def game_ok_def upd_player_def dislike_of_def)
qed

lemma game_ok_transfer: "game_ok g \<Longrightarrow> game_ok (transfer_player g p s d)"
  by (simp add: game_ok_def)

lemma game_ok_move: "game_ok g \<Longrightarrow> game_ok (final (apply_move g p d))"
proof -
  assume g: "game_ok g"
  have t: "game_ok ((transfer_player (bump_dislike g p d) p s d)\<lparr>movement_history := mh\<rparr>)" for s mh
    using g by (simp add: game_ok_bump game_ok_transfer game_ok_fields)
  then have "game_ok (upd_player ((transfer_player (bump_dislike g p d) p s d)\<lparr>movement_history := mh\<rparr>)
                 p (\<lambda>P. P\<lparr>vent_cooldown := VENT_COOLDOWN_TICKS\<rparr>))" for s mh
    by (rule game_ok_upd) (rule player_ok_changes)
  with g t show ?thesis
    by (simp add: apply_move_def Let_def split: option.splits)
qed

lemma game_ok_work: "game_ok g \<Longrightarrow> game_ok (final (apply_work_task_tick g p))"
proof -
  assume g: "game_ok g"
  have e: "game_ok (final (enqueue_next g' p t))" if "game_ok g'" for g' t
    using that by (auto simp: enqueue_next_def game_ok_upd split: option.splits list.splits)
  have v: "game_ok (grant_vouches g' p t)" if "game_ok g'" for g' t
    using that by (simp add: grant_vouches_def game_ok_fold)
  have 1: "game_ok (upd_player g p (\<lambda>P. P\<lparr>ticks_elapsed := ticks_elapsed P + 1\<rparr>))"
    (is "game_ok ?g1")
    using g by (simp add: game_ok_upd)
  then have 2: "game_ok (upd_player ?g1 p (\<lambda>P. P\<lparr>ticks_elapsed := 0\<rparr>))" (is "game_ok ?g2")
    by (rule game_ok_upd) simp
  show ?thesis
  proof (cases "current_task (pl g p)")
    case None
    with g show ?thesis by (simp add: apply_work_task_tick_def)
  next
    case (Some t)
    from e [OF 2, of t] have e2: "game_ok (final (enqueue_next ?g2 p t))" .
    show ?thesis
    proof (cases "enqueue_next ?g2 p t")
      case (Inl x)
      with e2 g 1 Some show ?thesis
        by (simp add: apply_work_task_tick_def Let_def)
    next
      case (Inr g3)
      with e2 have "game_ok g3" by simp
      then have "game_ok (grant_vouches g3 p t)" by (rule v)
      then have "game_ok (upd_player (grant_vouches g3 p t) p (\<lambda>P. P\<lparr>current_task := None\<rparr>))"
        by (rule game_ok_upd) simp
      with Inr g 1 Some show ?thesis
        by (simp add: apply_work_task_tick_def Let_def)
    qed
  qed
qed

lemma game_ok_kill_commit: "game_ok g \<Longrightarrow> game_ok (kill_commit g a t occ)"
  unfolding kill_commit_def Let_def
  by (auto intro!: game_ok_upd game_ok_fields player_ok_changes)

lemma game_ok_kill: "game_ok g \<Longrightarrow> game_ok (final (apply_kill g a t sr srw wr))"
proof -
  assume g: "game_ok g"
  have "game_ok (final (kill_reports (kill_commit g a t occ) a t sr srw wr))" for occ
    using kill_reports_verdict game_ok_kill_commit [OF g] by (rule game_ok_verdict)
  with g show ?thesis
    by (simp add: apply_kill_def split: option.splits)
qed

lemma game_ok_report: "game_ok g \<Longrightarrow> game_ok (final (apply_report g r d w))"
  using report_verdict [of g r d w]
  by (auto simp: apply_report_def intro: game_ok_verdict)

lemma game_ok_log_action: "game_ok (log_action g p a) = game_ok g"
  by (simp add: game_ok_def)

lemma game_ok_follow_none: "game_ok g \<Longrightarrow> game_ok (apply_follow g p None)"
  by (auto simp: apply_follow_def Let_def split: option.splits
        intro!: game_ok_upd player_ok_changes)

lemma game_ok_apply_action:
  "game_ok g \<Longrightarrow> star_safe a \<Longrightarrow> game_ok (final (apply_action g p a))"
  by (cases a)
     (simp_all add: apply_action_def star_safe_def game_ok_log_action game_ok_set_state
        game_ok_start_task game_ok_move game_ok_work game_ok_kill game_ok_report
        game_ok_follow_none split: option.splits)

lemma game_ok_tick_fold:
  "game_ok g \<Longrightarrow>
   game_ok (fold (\<lambda>p g'. if state (pl g' p) = DEAD then g'
                   else upd_player g' p (\<lambda>P. P\<lparr>kill_cooldown := max (kill_cooldown P - 1) 0,
                                                 vent_cooldown := max (vent_cooldown P - 1) 0\<rparr>)) ps g)"
proof (induction ps arbitrary: g)
  case Nil
  then show ?case by simp
next
  case (Cons p ps)
  have "game_ok (upd_player g p (\<lambda>P. P\<lparr>kill_cooldown := max (kill_cooldown P - 1) 0,
                                              vent_cooldown := max (vent_cooldown P - 1) 0\<rparr>))"
    using Cons.prems by (rule game_ok_upd) (rule player_ok_changes)
  with Cons show ?case by simp
qed

lemma game_ok_begin_tick: "game_ok g \<Longrightarrow> game_ok (begin_tick g)"
proof -
  assume "game_ok g"
  then have "game_ok (g\<lparr>tick_counter := tick_counter g + 1\<rparr>)" by (simp add: game_ok_def)
  then show ?thesis
    unfolding begin_tick_def tick_cooldowns_def
    by (simp add: game_ok_tick_fold)
qed

lemma game_ok_sort: "game_ok g \<Longrightarrow> game_ok (sort_players g)"
  by (simp add: game_ok_def sort_players_def)

lemma game_ok_set_group: "game_ok g \<Longrightarrow> game_ok (set_group g l fs)"
  unfolding set_group_def
  by (intro game_ok_fold game_ok_upd player_ok_changes)

lemma game_ok_form_groups: "game_ok g \<Longrightarrow> game_ok (form_groups g rnd i grps)"
  by (induction g rnd i grps rule: form_groups.induct) (simp_all add: Let_def game_ok_set_group)

lemma game_ok_ensure_groups: "game_ok g \<Longrightarrow> game_ok (final (ensure_groups g sh n rnd))"
  by (simp add: ensure_groups_def game_ok_form_groups)

lemma game_ok_reroll: "game_ok g \<Longrightarrow> game_ok (final (reroll_group_leader g p inc r))"
  by (simp add: reroll_group_leader_def Let_def game_ok_set_group split: option.splits)

lemma player_ok_new [simp]: "player_ok (new_player i ts l)"
  by (simp add: player_ok_def new_player_def dislike_of_def MAX_DISLIKE_def)

lemma game_ok_fresh: "fresh g \<Longrightarrow> game_ok g"
  unfolding fresh_def game_ok_def by (metis player_ok_new)

lemma reachable_game_ok: "reachable star_safe g \<Longrightarrow> game_ok g"
  by (induction rule: reachable.induct)
     (simp_all add: game_ok_fresh game_ok_apply_action game_ok_begin_tick game_ok_sort
        game_ok_ensure_groups game_ok_reroll)

subsection \<open>The kill log is in tick order\<close>

lemma kw_frame_refl [simp]: "kw_frame g g" by (simp add: kw_frame_def)

lemma kw_frame_trans: "kw_frame a b \<Longrightarrow> kw_frame b c \<Longrightarrow> kw_frame a c"
  by (simp add: kw_frame_def)

lemma kw_frame_report: "kw_frame g (final (report g r d w))"
  by (auto simp: kw_frame_def report_def body_report_def witnessed_report_def
        resolve_suspects_def Let_def split: option.splits list.splits sum.splits)

lemma kw_frame_kill_reports: "kw_frame g (final (kill_reports g a t sr srw wr))"
  by (rule kill_reports_rel [where R = kw_frame]) (auto intro: kw_frame_trans kw_frame_report)

lemma kill_log_ordered_frame: "kw_frame g g' \<Longrightarrow> kill_log_ordered g \<Longrightarrow> kill_log_ordered g'"
  by (simp add: kw_frame_def kill_log_ordered_def)

lemma kill_log_ordered_commit:
  "kill_log_ordered g \<Longrightarrow> kill_log_ordered (kill_commit g a t occ)"
  by (auto simp: kill_log_ordered_def kill_commit_kw sorted_append list_all_iff)

lemma kill_log_ordered_kill:
  "kill_log_ordered g \<Longrightarrow> kill_log_ordered (final (apply_kill g a t sr srw wr))"
proof -
  assume g: "kill_log_ordered g"
  have "kill_log_ordered (final (kill_reports (kill_commit g a t occ) a t sr srw wr))" for occ
    using kw_frame_kill_reports kill_log_ordered_commit [OF g] by (rule kill_log_ordered_frame)
  with g show ?thesis by (simp add: apply_kill_def split: option.splits)
qed

lemma kw_frame_move: "kw_frame g (final (apply_move g p d))"
  by (auto simp: kw_frame_def apply_move_def Let_def transfer_player_def bump_dislike_def
        split: option.splits)

lemma kw_frame_work: "kw_frame g (final (apply_work_task_tick g p))"
  by (auto simp: kw_frame_def apply_work_task_tick_def Let_def enqueue_next_def grant_vouches_def
        fold_upd_player_frame split: option.splits list.splits sum.splits)

lemma kill_log_ordered_log: "kill_log_ordered (log_action g p a) = kill_log_ordered g"
  by (simp add: kill_log_ordered_def)

lemma kill_log_ordered_action:
  "kill_log_ordered g \<Longrightarrow> kill_log_ordered (final (apply_action g p a))"
proof (cases a)
  case (KillAction t sr srw wr)
  assume "kill_log_ordered g"
  then have "kill_log_ordered (log_action g p a)" by (simp add: kill_log_ordered_log)
  from kill_log_ordered_kill [OF this] KillAction show ?thesis by (simp add: apply_action_def)
next
  case (MoveAction d)
  assume "kill_log_ordered g"
  then have "kill_log_ordered (log_action g p a)" by (simp add: kill_log_ordered_log)
  with kw_frame_move have "kill_log_ordered (final (apply_move (log_action g p a) p d))"
    by (rule kill_log_ordered_frame)
  with MoveAction show ?thesis by (simp add: apply_action_def)
next
  case WorkTaskAction
  assume "kill_log_ordered g"
  then have "kill_log_ordered (log_action g p a)" by (simp add: kill_log_ordered_log)
  with kw_frame_work have "kill_log_ordered (final (apply_work_task_tick (log_action g p a) p))"
    by (rule kill_log_ordered_frame)
  with WorkTaskAction show ?thesis by (simp add: apply_action_def)
next
  case (ReportAction d w)
  assume "kill_log_ordered g"
  then have "kill_log_ordered (log_action g p a)" by (simp add: kill_log_ordered_log)
  with kw_frame_report have "kill_log_ordered (final (report (log_action g p a) p d w))"
    by (rule kill_log_ordered_frame)
  with ReportAction \<open>kill_log_ordered g\<close> show ?thesis
    by (simp add: apply_action_def apply_report_def kill_log_ordered_log)
qed (simp_all add: apply_action_def kill_log_ordered_def apply_set_state_def apply_start_task_def
       apply_follow_def Let_def split: option.splits)

lemma tick_fold_kw:
  "kill_witness_history (fold (\<lambda>p g'. if state (pl g' p) = DEAD then g' else upd_player g' p (f p)) ps g)
     = kill_witness_history g"
  "tick_counter (fold (\<lambda>p g'. if state (pl g' p) = DEAD then g' else upd_player g' p (f p)) ps g)
     = tick_counter g"
  by (induction ps arbitrary: g; simp)+

lemma kill_log_ordered_begin_tick: "kill_log_ordered g \<Longrightarrow> kill_log_ordered (begin_tick g)"
  by (auto simp: kill_log_ordered_def begin_tick_def tick_cooldowns_def tick_fold_kw list_all_iff)

lemma set_group_kw:
  "kill_witness_history (set_group g l fs) = kill_witness_history g"
  "tick_counter (set_group g l fs) = tick_counter g"
  by (simp_all add: set_group_def fold_upd_player_frame)

lemma form_groups_kw:
  "kill_witness_history (form_groups g rnd i grps) = kill_witness_history g"
  "tick_counter (form_groups g rnd i grps) = tick_counter g"
  by (induction g rnd i grps rule: form_groups.induct; simp add: Let_def set_group_kw)+

lemma kill_log_ordered_groups:
  "kill_log_ordered g \<Longrightarrow> kill_log_ordered (final (ensure_groups g sh n rnd))"
  by (simp add: ensure_groups_def kill_log_ordered_def form_groups_kw)

lemma kill_log_ordered_reroll:
  "kill_log_ordered g \<Longrightarrow> kill_log_ordered (final (reroll_group_leader g p inc r))"
  by (simp add: reroll_group_leader_def Let_def kill_log_ordered_def set_group_kw
        split: option.splits)

lemma reachable_kill_log_ordered: "reachable allowed g \<Longrightarrow> kill_log_ordered g"
proof (induction rule: reachable.induct)
  case (r_fresh g)
  then show ?case by (simp add: fresh_def kill_log_ordered_def)
next
  case (r_sort g)
  then show ?case by (simp add: kill_log_ordered_def sort_players_def)
qed (simp_all add: kill_log_ordered_action kill_log_ordered_begin_tick kill_log_ordered_groups
       kill_log_ordered_reroll)

subsection \<open>No elapsed ticks without an active task\<close>

lemma task_frame_refl [simp]: "task_frame g g" by (simp add: task_frame_def)

lemma task_frame_trans: "task_frame a b \<Longrightarrow> task_frame b c \<Longrightarrow> task_frame a c"
  by (simp add: task_frame_def)

lemma idle_clear_frame: "task_frame g g' \<Longrightarrow> idle_clear g \<Longrightarrow> idle_clear g'"
  by (simp add: task_frame_def idle_clear_def)

lemma task_frame_verdict: "verdict_only g g' \<Longrightarrow> task_frame g g'"
  unfolding verdict_only_def task_frame_def
proof
  fix q
  assume "\<forall>q. \<exists>s v b. pl g' q = (pl g q)\<lparr>state := s, voted_out := v, dead_body_reported := b\<rparr>"
  then obtain s v b where "pl g' q = (pl g q)\<lparr>state := s, voted_out := v, dead_body_reported := b\<rparr>"
    by blast
  then show "current_task (pl g' q) = current_task (pl g q) \<and>
             ticks_elapsed (pl g' q) = ticks_elapsed (pl g q)" by simp
qed

lemma task_frame_fold:
  "(\<And>q P. current_task (f q P) = current_task P \<and> ticks_elapsed (f q P) = ticks_elapsed P) \<Longrightarrow>
   task_frame g (fold (\<lambda>q g'. upd_player g' q (f q)) qs g)"
proof (induction qs arbitrary: g)
  case Nil
  then show ?case by simp
next
  case (Cons q qs)
  have "task_frame g (upd_player g q (f q))" using Cons.prems by (simp add: task_frame_def)
  moreover have "task_frame (upd_player g q (f q)) (fold (\<lambda>q g'. upd_player g' q (f q)) qs (upd_player g q (f q)))"
    using Cons.prems by (rule Cons.IH)
  ultimately show ?case by (simp add: task_frame_trans)
qed

lemma task_frame_tick_fold:
  "(\<And>q P. current_task (f q P) = current_task P \<and> ticks_elapsed (f q P) = ticks_elapsed P) \<Longrightarrow>
   task_frame g (fold (\<lambda>p g'. if state (pl g' p) = DEAD then g' else upd_player g' p (f p)) ps g)"
proof (induction ps arbitrary: g)
  case Nil
  then show ?case by simp
next
  case (Cons q qs)
  let ?g1 = "if state (pl g q) = DEAD then g else upd_player g q (f q)"
  have "task_frame g ?g1" using Cons.prems by (simp add: task_frame_def)
  moreover have "task_frame ?g1
      (fold (\<lambda>p g'. if state (pl g' p) = DEAD then g' else upd_player g' p (f p)) qs ?g1)"
    using Cons.prems by (rule Cons.IH)
  ultimately have "task_frame g
      (fold (\<lambda>p g'. if state (pl g' p) = DEAD then g' else upd_player g' p (f p)) qs ?g1)"
    by (rule task_frame_trans)
  then show ?case by simp
qed

lemma task_frame_move: "task_frame g (final (apply_move g p d))"
  by (auto simp: task_frame_def apply_move_def Let_def bump_dislike_def split: option.splits)

lemma task_frame_kill_commit: "task_frame g (kill_commit g a t occ)"
  by (simp add: task_frame_def kill_commit_def Let_def)

lemma task_frame_report: "task_frame g (final (report g r d w))"
  using report_verdict by (rule task_frame_verdict)

lemma task_frame_kill: "task_frame g (final (apply_kill g a t sr srw wr))"
proof -
  have "task_frame (kill_commit g a t occ)
          (final (kill_reports (kill_commit g a t occ) a t sr srw wr))" for occ
    using kill_reports_verdict by (rule task_frame_verdict)
  then have "task_frame g (final (kill_reports (kill_commit g a t occ) a t sr srw wr))" for occ
    using task_frame_kill_commit task_frame_trans by blast
  then show ?thesis by (simp add: apply_kill_def split: option.splits)
qed

lemma task_frame_follow: "task_frame g (apply_follow g p l)"
  by (simp add: task_frame_def apply_follow_def Let_def split: option.splits)

lemma task_frame_set_state: "task_frame g (apply_set_state g p s)"
  by (simp add: task_frame_def apply_set_state_def)

lemma idle_clear_start: "idle_clear g \<Longrightarrow> idle_clear (apply_start_task g p t)"
  by (simp add: idle_clear_def apply_start_task_def Let_def)

lemma task_frame_enqueue: "task_frame g (final (enqueue_next g p t))"
  by (auto simp: task_frame_def enqueue_next_def split: option.splits list.splits)

lemma task_frame_vouches: "task_frame g (grant_vouches g p t)"
  by (simp add: grant_vouches_def task_frame_fold)

lemma idle_clear_work: "idle_clear g \<Longrightarrow> idle_clear (final (apply_work_task_tick g p))"
proof (cases "current_task (pl g p)")
  case None
  assume "idle_clear g"
  with None show ?thesis by (simp add: apply_work_task_tick_def)
next
  case (Some t)
  assume g: "idle_clear g"
  let ?g1 = "upd_player g p (\<lambda>P. P\<lparr>ticks_elapsed := ticks_elapsed P + 1\<rparr>)"
  let ?g2 = "upd_player ?g1 p (\<lambda>P. P\<lparr>ticks_elapsed := 0\<rparr>)"
  have 1: "idle_clear ?g1" using g Some by (simp add: idle_clear_def)
  have 2: "idle_clear ?g2" using g by (simp add: idle_clear_def)
  have e: "idle_clear (final (enqueue_next ?g2 p t))"
    using task_frame_enqueue 2 by (rule idle_clear_frame)
  show ?thesis
  proof (cases "enqueue_next ?g2 p t")
    case (Inl x)
    with e g 1 Some show ?thesis by (simp add: apply_work_task_tick_def Let_def)
  next
    case (Inr g3)
    have f: "task_frame ?g2 g3" using task_frame_enqueue [of ?g2 p t] Inr by simp
    have "task_frame g3 (grant_vouches g3 p t)" by (rule task_frame_vouches)
    with f have "task_frame ?g2 (grant_vouches g3 p t)" by (rule task_frame_trans)
    then have fq: "ticks_elapsed (pl (grant_vouches g3 p t) q) = ticks_elapsed (pl ?g2 q)"
      and cq: "current_task (pl (grant_vouches g3 p t) q) = current_task (pl ?g2 q)" for q
      unfolding task_frame_def by blast+
    have z: "ticks_elapsed (pl ?g2 p) = 0" by simp
    have i2: "current_task (pl ?g2 q) = None \<Longrightarrow> ticks_elapsed (pl ?g2 q) = 0" for q
      using 2 unfolding idle_clear_def by blast
    have "idle_clear (upd_player (grant_vouches g3 p t) p (\<lambda>P. P\<lparr>current_task := None\<rparr>))"
      unfolding idle_clear_def
    proof (intro allI impI)
      fix q
      assume a: "current_task (pl (upd_player (grant_vouches g3 p t) p (\<lambda>P. P\<lparr>current_task := None\<rparr>)) q) = None"
      show "ticks_elapsed (pl (upd_player (grant_vouches g3 p t) p (\<lambda>P. P\<lparr>current_task := None\<rparr>)) q) = 0"
      proof (cases "q = p")
        case True
        then show ?thesis using fq [of p] z by simp
      next
        case False
        with a have "current_task (pl (grant_vouches g3 p t) q) = None" by simp
        then have "current_task (pl ?g2 q) = None" using cq [of q] by simp
        then have "ticks_elapsed (pl ?g2 q) = 0" by (rule i2)
        then show ?thesis using fq [of q] False by simp
      qed
    qed
    with Inr g 1 Some show ?thesis by (simp add: apply_work_task_tick_def Let_def)
  qed
qed

lemma idle_clear_log: "idle_clear (log_action g p a) = idle_clear g"
  by (simp add: idle_clear_def)

lemma idle_clear_action: "idle_clear g \<Longrightarrow> idle_clear (final (apply_action g p a))"
proof -
  assume g: "idle_clear g"
  then have l: "idle_clear (log_action g p a)" by (simp add: idle_clear_log)
  note fr = idle_clear_frame [OF _ l]
  show ?thesis
  proof (cases a)
    case NoneAction
    with g show ?thesis by (simp add: apply_action_def)
  next
    case (MoveAction d)
    with fr [OF task_frame_move] show ?thesis by (simp add: apply_action_def)
  next
    case (StartTaskAction t)
    with idle_clear_start [OF l] show ?thesis by (simp add: apply_action_def)
  next
    case WorkTaskAction
    with idle_clear_work [OF l] show ?thesis by (simp add: apply_action_def)
  next
    case (KillAction t sr srw wr)
    with fr [OF task_frame_kill] show ?thesis by (simp add: apply_action_def)
  next
    case (ReportAction d w)
    with fr [OF task_frame_report] l show ?thesis by (simp add: apply_action_def apply_report_def)
  next
    case (SetStateAction s)
    with fr [OF task_frame_set_state] show ?thesis by (simp add: apply_action_def)
  next
    case (FollowAction x)
    with fr [OF task_frame_follow] show ?thesis by (simp add: apply_action_def)
  qed
qed

lemma task_frame_set_group: "task_frame g (set_group g l fs)"
proof -
  have "task_frame g (upd_player g l
          (\<lambda>P. P\<lparr>player_following := fs, following_player := None, state := IDLE\<rparr>))"
    by (simp add: task_frame_def)
  moreover have "task_frame (upd_player g l
          (\<lambda>P. P\<lparr>player_following := fs, following_player := None, state := IDLE\<rparr>))
     (set_group g l fs)"
    unfolding set_group_def by (rule task_frame_fold) simp
  ultimately show ?thesis by (rule task_frame_trans)
qed

lemma idle_clear_form_groups: "idle_clear g \<Longrightarrow> idle_clear (form_groups g rnd i grps)"
proof (induction g rnd i grps rule: form_groups.induct)
  case (1 g rnd i)
  then show ?case by simp
next
  case (2 g rnd i grp grps)
  show ?case
  proof (cases "grp = []")
    case True
    with 2 show ?thesis by simp
  next
    case False
    let ?l = "choice (rnd i) grp"
    let ?fs = "filter (\<lambda>p. p \<noteq> ?l) grp"
    have "idle_clear (set_group g ?l ?fs)"
      using task_frame_set_group "2.prems" by (rule idle_clear_frame)
    with "2.IH"(2) [OF False refl refl] False show ?thesis by (simp add: Let_def)
  qed
qed

lemma reachable_idle_clear: "reachable allowed g \<Longrightarrow> idle_clear g"
proof (induction rule: reachable.induct)
  case (r_fresh g)
  then show ?case unfolding fresh_def idle_clear_def
    by (metis new_player_fields(6))
next
  case (r_action g a p)
  then show ?case by (simp add: idle_clear_action)
next
  case (r_tick g)
  have "task_frame (g\<lparr>tick_counter := tick_counter g + 1\<rparr>) (begin_tick g)"
    unfolding begin_tick_def tick_cooldowns_def
    by (simp add: task_frame_tick_fold)
  moreover have "idle_clear (g\<lparr>tick_counter := tick_counter g + 1\<rparr>)"
    using r_tick by (simp add: idle_clear_def)
  ultimately show ?case by (rule idle_clear_frame)
next
  case (r_sort g)
  then show ?case by (simp add: idle_clear_def sort_players_def)
next
  case (r_groups g shuffled group_size rnd)
  then show ?case by (simp add: ensure_groups_def idle_clear_form_groups)
next
  case (r_reroll g player include_self r)
  then show ?case
    using idle_clear_frame [OF task_frame_set_group]
    by (simp add: reroll_group_leader_def Let_def split: option.splits)
qed

subsection \<open>Players stand on the map\<close>

lemma loc_frame_refl [simp]: "loc_frame g g" by (simp add: loc_frame_def)

lemma loc_frame_trans: "loc_frame a b \<Longrightarrow> loc_frame b c \<Longrightarrow> loc_frame a c"
  by (simp add: loc_frame_def)

lemma located_frame: "loc_frame g g' \<Longrightarrow> located g \<Longrightarrow> located g'"
  by (simp add: loc_frame_def located_def)

lemma loc_frame_fold:
  "(\<And>q P. current_location (f q P) = current_location P) \<Longrightarrow>
   loc_frame g (fold (\<lambda>q g'. upd_player g' q (f q)) qs g)"
proof (induction qs arbitrary: g)
  case Nil
  then show ?case by simp
next
  case (Cons q qs)
  have "loc_frame g (upd_player g q (f q))" using Cons.prems by (simp add: loc_frame_def)
  moreover have "loc_frame (upd_player g q (f q))
      (fold (\<lambda>q g'. upd_player g' q (f q)) qs (upd_player g q (f q)))"
    using Cons.prems by (rule Cons.IH)
  ultimately show ?case by (simp add: loc_frame_trans)
qed

lemma loc_frame_tick_fold:
  "(\<And>q P. current_location (f q P) = current_location P) \<Longrightarrow>
   loc_frame g (fold (\<lambda>p g'. if state (pl g' p) = DEAD then g' else upd_player g' p (f p)) ps g)"
proof (induction ps arbitrary: g)
  case Nil
  then show ?case by simp
next
  case (Cons q qs)
  let ?g1 = "if state (pl g q) = DEAD then g else upd_player g q (f q)"
  have "loc_frame g ?g1" using Cons.prems by (simp add: loc_frame_def)
  moreover have "loc_frame ?g1
      (fold (\<lambda>p g'. if state (pl g' p) = DEAD then g' else upd_player g' p (f p)) qs ?g1)"
    using Cons.prems by (rule Cons.IH)
  ultimately have "loc_frame g
      (fold (\<lambda>p g'. if state (pl g' p) = DEAD then g' else upd_player g' p (f p)) qs ?g1)"
    by (rule loc_frame_trans)
  then show ?case by simp
qed

lemma loc_frame_verdict:
  assumes "verdict_only g g'" "nodes g' = nodes g"
  shows "loc_frame g g'"
  unfolding loc_frame_def
proof (intro conjI allI)
  show "nodes g' = nodes g" by (rule assms(2))
next
  fix q
  from assms(1) obtain s v b where
    "pl g' q = (pl g q)\<lparr>state := s, voted_out := v, dead_body_reported := b\<rparr>"
    unfolding verdict_only_def by blast
  then show "current_location (pl g' q) = current_location (pl g q)" by simp
qed

lemma nodes_report: "nodes (final (report g r d w)) = nodes g"
  by (auto simp: report_def body_report_def witnessed_report_def resolve_suspects_def Let_def
        split: option.splits list.splits sum.splits)

lemma loc_frame_report: "loc_frame g (final (report g r d w))"
  using report_verdict nodes_report by (rule loc_frame_verdict)

lemma loc_frame_kill_commit: "loc_frame g (kill_commit g a t occ)"
  by (simp add: loc_frame_def kill_commit_def Let_def)

lemma loc_frame_kill: "loc_frame g (final (apply_kill g a t sr srw wr))"
proof -
  have "loc_frame (kill_commit g a t occ)
          (final (kill_reports (kill_commit g a t occ) a t sr srw wr))" for occ
    by (rule kill_reports_rel [where R = loc_frame])
       (auto intro: loc_frame_trans loc_frame_report)
  then have "loc_frame g (final (kill_reports (kill_commit g a t occ) a t sr srw wr))" for occ
    using loc_frame_kill_commit loc_frame_trans by blast
  then show ?thesis by (simp add: apply_kill_def split: option.splits)
qed

lemma loc_frame_work: "loc_frame g (final (apply_work_task_tick g p))"
proof -
  have e: "loc_frame g' (final (enqueue_next g' p t))" for g' t
    by (auto simp: loc_frame_def enqueue_next_def split: option.splits list.splits)
  have v: "loc_frame g' (grant_vouches g' p t)" for g' t
    by (simp add: grant_vouches_def loc_frame_fold)
  have u: "loc_frame g' (upd_player g' q f)" if "\<And>P. current_location (f P) = current_location P"
    for g' q f using that by (simp add: loc_frame_def)
  show ?thesis
  proof (cases "current_task (pl g p)")
    case None
    then show ?thesis by (simp add: apply_work_task_tick_def)
  next
    case (Some t)
    let ?g1 = "upd_player g p (\<lambda>P. P\<lparr>ticks_elapsed := ticks_elapsed P + 1\<rparr>)"
    let ?g2 = "upd_player ?g1 p (\<lambda>P. P\<lparr>ticks_elapsed := 0\<rparr>)"
    have 1: "loc_frame g ?g1" by (rule u) simp
    have "loc_frame ?g1 ?g2" by (rule u) simp
    with 1 have 2: "loc_frame g ?g2" by (rule loc_frame_trans)
    have 3: "loc_frame g (final (enqueue_next ?g2 p t))"
      using 2 e by (rule loc_frame_trans)
    show ?thesis
    proof (cases "enqueue_next ?g2 p t")
      case (Inl x)
      with 3 1 Some show ?thesis by (simp add: apply_work_task_tick_def Let_def)
    next
      case (Inr g3)
      with 3 have "loc_frame g g3" by simp
      then have "loc_frame g (grant_vouches g3 p t)" using v by (rule loc_frame_trans)
      moreover have "loc_frame (grant_vouches g3 p t)
          (upd_player (grant_vouches g3 p t) p (\<lambda>P. P\<lparr>current_task := None\<rparr>))"
        by (rule u) simp
      ultimately have "loc_frame g (upd_player (grant_vouches g3 p t) p (\<lambda>P. P\<lparr>current_task := None\<rparr>))"
        by (rule loc_frame_trans)
      with Inr 1 Some show ?thesis by (simp add: apply_work_task_tick_def Let_def)
    qed
  qed
qed

lemma nodes_upd_node_None: "(nodes (upd_node g n f) x = None) = (nodes g x = None)"
  by (auto simp: upd_node_def split: option.splits)

lemma nodes_transfer_None: "(nodes (transfer_player g p s d) x = None) = (nodes g x = None)"
  by (simp add: transfer_player_def Let_def nodes_upd_node_None)

lemma located_upd:
  "located g \<Longrightarrow> (\<And>P. current_location (f P) = current_location P) \<Longrightarrow>
   located (upd_player g q f)"
  by (simp add: located_def)

lemma located_move: "located g \<Longrightarrow> located (final (apply_move g p d))"
proof -
  assume g: "located g"
  have t: "located ((transfer_player (bump_dislike g p d) p s d)\<lparr>movement_history := mh\<rparr>)"
    if "nodes g d \<noteq> None" for s mh
    using g that by (simp add: located_def nodes_transfer_None bump_dislike_def Let_def)
  have "located (upd_player ((transfer_player (bump_dislike g p d) p s d)\<lparr>movement_history := mh\<rparr>)
                 p (\<lambda>P. P\<lparr>vent_cooldown := VENT_COOLDOWN_TICKS\<rparr>))"
    if "nodes g d \<noteq> None" for s mh
    using t [OF that] by (rule located_upd) simp
  with g t show ?thesis
    by (auto simp: apply_move_def Let_def split: option.splits)
qed

lemma located_log: "located (log_action g p a) = located g"
  by (simp add: located_def)

lemma located_action: "located g \<Longrightarrow> located (final (apply_action g p a))"
proof -
  assume g: "located g"
  then have l: "located (log_action g p a)" by (simp add: located_log)
  note fr = located_frame [OF _ l]
  show ?thesis
  proof (cases a)
    case NoneAction
    with g show ?thesis by (simp add: apply_action_def)
  next
    case (MoveAction d)
    with located_move [OF l] show ?thesis by (simp add: apply_action_def)
  next
    case (StartTaskAction t)
    with l show ?thesis by (simp add: apply_action_def apply_start_task_def Let_def located_def)
  next
    case WorkTaskAction
    with fr [OF loc_frame_work] show ?thesis by (simp add: apply_action_def)
  next
    case (KillAction t sr srw wr)
    with fr [OF loc_frame_kill] show ?thesis by (simp add: apply_action_def)
  next
    case (ReportAction d w)
    with fr [OF loc_frame_report] l show ?thesis by (simp add: apply_action_def apply_report_def)
  next
    case (SetStateAction s)
    with l show ?thesis by (simp add: apply_action_def apply_set_state_def located_def)
  next
    case (FollowAction x)
    with l show ?thesis
      by (simp add: apply_action_def apply_follow_def Let_def located_def split: option.splits)
  qed
qed

lemma loc_frame_set_group: "loc_frame g (set_group g l fs)"
proof -
  have "loc_frame g (upd_player g l
          (\<lambda>P. P\<lparr>player_following := fs, following_player := None, state := IDLE\<rparr>))"
    by (simp add: loc_frame_def)
  moreover have "loc_frame (upd_player g l
          (\<lambda>P. P\<lparr>player_following := fs, following_player := None, state := IDLE\<rparr>))
     (set_group g l fs)"
    unfolding set_group_def by (rule loc_frame_fold) simp
  ultimately show ?thesis by (rule loc_frame_trans)
qed

lemma located_form_groups: "located g \<Longrightarrow> located (form_groups g rnd i grps)"
proof (induction g rnd i grps rule: form_groups.induct)
  case (1 g rnd i)
  then show ?case by simp
next
  case (2 g rnd i grp grps)
  show ?case
  proof (cases "grp = []")
    case True
    with 2 show ?thesis by simp
  next
    case False
    let ?l = "choice (rnd i) grp"
    let ?fs = "filter (\<lambda>p. p \<noteq> ?l) grp"
    have "located (set_group g ?l ?fs)"
      using loc_frame_set_group "2.prems" by (rule located_frame)
    with "2.IH"(2) [OF False refl refl] False show ?thesis by (simp add: Let_def)
  qed
qed

lemma reachable_located: "reachable allowed g \<Longrightarrow> located g"
proof (induction rule: reachable.induct)
  case (r_fresh g)
  then show ?case by (simp add: fresh_def located_def)
next
  case (r_action g a p)
  then show ?case by (simp add: located_action)
next
  case (r_tick g)
  have "loc_frame (g\<lparr>tick_counter := tick_counter g + 1\<rparr>) (begin_tick g)"
    unfolding begin_tick_def tick_cooldowns_def
    by (simp add: loc_frame_tick_fold)
  moreover have "located (g\<lparr>tick_counter := tick_counter g + 1\<rparr>)"
    using r_tick by (simp add: located_def)
  ultimately show ?case by (rule located_frame)
next
  case (r_sort g)
  then show ?case by (simp add: located_def sort_players_def)
next
  case (r_groups g shuffled group_size rnd)
  then show ?case by (simp add: ensure_groups_def located_form_groups)
next
  case (r_reroll g player include_self r)
  then show ?case
    using located_frame [OF loc_frame_set_group]
    by (simp add: reroll_group_leader_def Let_def split: option.splits)
qed

subsection \<open>A step stays within the reachable states\<close>

lemma run_phase_reachable:
  "decides_within allowed dec \<Longrightarrow> reachable allowed g \<Longrightarrow>
   reachable allowed (final (run_phase dec g ps))"
proof (induction ps arbitrary: g)
  case Nil
  then show ?case by simp
next
  case (Cons p ps)
  obtain a g1 where d: "dec g p = (a, g1)" by (cases "dec g p")
  from Cons.prems d have a: "allowed a" and g1: "reachable allowed g1"
    unfolding decides_within_def by (metis fst_conv, metis snd_conv)
  then have r: "reachable allowed (final (apply_action g1 p a))" by (simp add: r_action)
  show ?case
  proof (cases "apply_action g1 p a")
    case (Inl e)
    with r d show ?thesis by simp
  next
    case (Inr g2)
    with r have "reachable allowed g2" by simp
    from Cons.IH [OF Cons.prems(1) this] d Inr show ?thesis by simp
  qed
qed

lemma step_reachable:
  assumes "decides_within allowed ds" "decides_within allowed dm" "decides_within allowed da"
    and "reachable allowed g"
  shows "reachable allowed (final (step ds dm da g))"
proof -
  let ?g0 = "begin_tick g"
  have 0: "reachable allowed ?g0" using assms(4) by (rule r_tick)
  have 1: "reachable allowed (final (run_phase ds ?g0 (players ?g0)))"
    using assms(1) 0 by (rule run_phase_reachable)
  show ?thesis
  proof (cases "run_phase ds ?g0 (players ?g0)")
    case (Inl e)
    with 1 show ?thesis by (simp add: step_def Let_def)
  next
    case (Inr g1)
    with 1 have "reachable allowed g1" by simp
    then have 2: "reachable allowed (sort_players g1)" by (rule r_sort)
    have 3: "reachable allowed (final (run_phase dm (sort_players g1) (players (sort_players g1))))"
      using assms(2) 2 by (rule run_phase_reachable)
    show ?thesis
    proof (cases "run_phase dm (sort_players g1) (players (sort_players g1))")
      case (Inl e)
      with 3 Inr show ?thesis by (simp add: step_def Let_def)
    next
      case g3: (Inr g3)
      with 3 have "reachable allowed g3" by simp
      with assms(3) have "reachable allowed (final (run_phase da g3 (players g3)))"
        by (rule run_phase_reachable)
      with Inr g3 show ?thesis by (simp add: step_def Let_def)
    qed
  qed
qed

section \<open>Facts about the example states\<close>

lemma ex_game_fields:
  "nodes ex_game ''A'' = Some \<lparr>node_players = [0, 1, 3], vent = False\<rparr>"
  "nodes ex_game ''B'' = Some \<lparr>node_players = [2, 4], vent = False\<rparr>"
  "edges ex_game ''A'' = Some [''B'' \<mapsto> False]"
  "edges ex_game ''B'' = Some [''A'' \<mapsto> False]"
  "players ex_game = [0, 1, 2, 3, 4]"
  "movement_history ex_game = []"
  "kill_witness_history ex_game = []"
  "tick_counter ex_game = 0"
  "action_history ex_game = []"
  "game_tasks ex_game = [''wires'' \<mapsto> task_a, ''scan'' \<mapsto> task_b]"
  "pl ex_game 0 = new_player False [task_a, task_b] ''A''"
  "pl ex_game 1 = new_player True [] ''A''"
  "pl ex_game (Suc 0) = new_player True [] ''A''"
  "pl ex_game 2 = new_player False [] ''B''"
  "pl ex_game 3 = new_player False [] ''A''"
  "pl ex_game 4 = new_player True [] ''B''"
  by (simp_all add: ex_game_def)

lemma fresh_ex_game: "fresh ex_game"
  by (auto simp: fresh_def ex_game_def)

lemma ex_game_dead_fields:
  "nodes ex_game_dead = nodes ex_game"
  "players ex_game_dead = players ex_game"
  "tick_counter ex_game_dead = 0"
  "action_history ex_game_dead = []"
  "pl ex_game_dead 2 = (new_player False [] ''B'')\<lparr>state := DEAD\<rparr>"
  "pl ex_game_dead 4 = new_player True [] ''B''"
  by (simp_all add: ex_game_dead_def ex_game_fields)

lemma ex_killed_fields:
  "kill_witness_history ex_killed = [\<lparr>tick_kw = 0, killer = 1, victim = 0, witnesses = [3]\<rparr>]"
  by (simp add: ex_killed_def apply_action_def apply_kill_def kill_reports_def
        get_player_current_node_def kill_commit_kw ex_game_fields)

lemma ex_working_fields:
  "pl ex_working 0 =
     (new_player False [task_b] ''A'')\<lparr>current_task := Some task_a, ticks_elapsed := 1\<rparr>"
  by (simp add: ex_working_def apply_action_def apply_start_task_def apply_work_task_tick_def
        Let_def ex_game_fields task_a_def task_b_def new_player_def)

lemma ex_follow_fields:
  "following_player (pl ex_follow 0) = Some 3"
  "player_following (pl ex_follow 0) = [2]"
  by (simp_all add: ex_follow_def apply_action_def apply_follow_def Let_def ex_game_fields)

lemma ex_vouch_fields:
  "nodes ex_vouch ''B'' = Some \<lparr>node_players = [2, 4, 0], vent = False\<rparr>"
  "players ex_vouch = [0, 1, 2, 3, 4]"
  "movement_history ex_vouch =
     [\<lparr>tick_mh = 0, witness = 0, subject = 4, previous = ''A'', location = ''B''\<rparr>]"
  "pl ex_vouch 0 = (new_player False [task_a, task_b] ''A'')\<lparr>current_location := ''B''\<rparr>"
  "pl ex_vouch 1 = new_player True [] ''A''"
  "pl ex_vouch (Suc 0) = new_player True [] ''A''"
  "pl ex_vouch 2 = (new_player False [] ''B'')\<lparr>state := DEAD\<rparr>"
  "pl ex_vouch 3 = (new_player False [] ''A'')\<lparr>vouch_history := {0}\<rparr>"
  "pl ex_vouch 4 = new_player True [] ''B''"
  by (simp_all add: ex_vouch_def ex_game_fields)

lemma ex_vouch_scores:
  "\<exists>sc. sus_scores ex_vouch {2} \<lparr>tick_kw = 0, killer = 4, victim = 2, witnesses = []\<rparr> = Inr sc"
  by (simp add: sus_scores_def sus_after_movement_def sus_after_colocated_def sus_keys_def
        get_player_current_node_def incr_def move_match_def
        ex_vouch_fields)

section \<open>Movement\<close>

lemma movement_records_after_transfer:
  "movement_records (transfer_player (bump_dislike g p d) p s d) p s d =
     map (\<lambda>w. \<lparr>tick_mh = tick_counter g, witness = p, subject = w, previous = s, location = d\<rparr>)
       (filter (\<lambda>w. w \<noteq> p \<and> state (pl g w) \<noteq> DEAD) (occupants g d))"
proof -
  have "filter (\<lambda>w. w \<noteq> p \<and> state (pl (transfer_player (bump_dislike g p d) p s d) w) \<noteq> DEAD)
          (occupants (transfer_player (bump_dislike g p d) p s d) d) =
        filter (\<lambda>w. w \<noteq> p \<and> state (pl g w) \<noteq> DEAD)
          (occupants (transfer_player (bump_dislike g p d) p s d) d)"
    by (rule filter_cong) auto
  also have "\<dots> = filter (\<lambda>w. w \<noteq> p \<and> state (pl g w) \<noteq> DEAD) (occupants g d)"
    by (simp add: occupants_transfer)
  finally show ?thesis by (simp add: movement_records_def)
qed

lemma apply_move_records:
  assumes "move_legal g p d"
  shows "\<not> raises (apply_move g p d)"
    and "current_location (pl (final (apply_move g p d)) p) = d"
    and "movement_history (final (apply_move g p d)) =
           movement_history g @
           map (\<lambda>w. \<lparr>tick_mh = tick_counter g, witness = p, subject = w,
                      previous = current_location (pl g p), location = d\<rparr>)
             (filter (\<lambda>w. w \<noteq> p \<and> state (pl g w) \<noteq> DEAD) (occupants g d))"
  using assms
  by (auto simp: move_legal_def apply_move_def get_player_current_node_def Let_def
        movement_records_after_transfer split: option.splits)

text \<open>
  Claim C3 (a successful move of \<open>m\<close> from \<open>s\<close> to \<open>d\<close> appends, for each other living
  occupant \<open>w\<close> of \<open>d\<close>, the record (tick, witness = \<open>w\<close>, mover = \<open>m\<close>, \<open>s\<close>, \<open>d\<close>)).
  By \<open>apply_move_records\<close> one record per other living occupant is appended, with the
  current tick, \<open>s\<close> and \<open>d\<close>; but \<^verbatim>\<open>_apply_move\<close> passes the mover and the onlooker
  to the constructor in the order (mover, onlooker) while the dataclass declares
  (witness, subject), so the field \<open>witness\<close> holds the mover and \<open>subject\<close> the onlooker.
  In \<open>ex_game\<close> crewmate 0 moves from \<open>A\<close> to \<open>B\<close>, where players 2 and 4 stand:
  both records name player 0 as the witness.
\<close>

theorem move_record_swaps_witness_and_mover:
  "movement_history (final (apply_action ex_game 0 (MoveAction ''B''))) =
     [\<lparr>tick_mh = 0, witness = 0, subject = 2, previous = ''A'', location = ''B''\<rparr>,
      \<lparr>tick_mh = 0, witness = 0, subject = 4, previous = ''A'', location = ''B''\<rparr>]"
proof -
  let ?g = "log_action ex_game 0 (MoveAction ''B'')"
  have "move_legal ?g 0 ''B''"
    by (simp add: move_legal_def ex_game_fields)
  then have "movement_history (final (apply_move ?g 0 ''B'')) =
      movement_history ?g @
           map (\<lambda>w. \<lparr>tick_mh = tick_counter ?g, witness = 0, subject = w,
                      previous = current_location (pl ?g 0), location = ''B''\<rparr>)
             (filter (\<lambda>w. w \<noteq> 0 \<and> state (pl ?g w) \<noteq> DEAD) (occupants ?g ''B''))"
    by (rule apply_move_records)
  then show ?thesis
    by (simp add: apply_action_def occupants_def ex_game_fields)
qed

section \<open>Tasks\<close>

text \<open>
  Claim C5, as amended (a legal start-task action of a living player makes the started
  task the active one and, for a crewmate, removes its first occurrence from the queue;
  the elapsed-tick counter keeps its value, and so is zero afterwards when no task was
  active before).  \<^verbatim>\<open>_apply_start_task\<close> does not assign \<^verbatim>\<open>ticks_elapsed\<close>; the
  counter is reset where a task completes, and by \<open>reachable_idle_clear\<close> it is zero in
  every reachable state in which the player has no active task.
\<close>

theorem start_task_effect:
  assumes "state (pl g p) \<noteq> DEAD"
    and "t \<in> set (tasks (pl g p)) \<or> current_task (pl g p) = None"
  shows "\<exists>g'. apply_action g p (StartTaskAction t) = Inr g' \<and>
           current_task (pl g' p) = Some t \<and>
           tasks (pl g' p) = (if imposter (pl g p) then tasks (pl g p)
                              else remove1 t (tasks (pl g p))) \<and>
           ticks_elapsed (pl g' p) = ticks_elapsed (pl g p) \<and>
           (idle_clear g \<and> current_task (pl g p) = None \<longrightarrow> ticks_elapsed (pl g' p) = 0)"
  using assms
  by (auto simp: apply_action_def apply_start_task_def Let_def idle_clear_def remove1_idem)

theorem start_task_effect_witness:
  "state (pl ex_game 0) \<noteq> DEAD \<and> task_a \<in> set (tasks (pl ex_game 0)) \<and>
   idle_clear ex_game \<and> current_task (pl ex_game 0) = None \<and>
   (\<exists>g'. apply_action ex_game 0 (StartTaskAction task_a) = Inr g' \<and>
          current_task (pl g' 0) = Some task_a \<and> tasks (pl g' 0) = [task_b] \<and>
          ticks_elapsed (pl g' 0) = 0)"
proof -
  have a: "state (pl ex_game 0) \<noteq> DEAD" by (simp add: ex_game_fields)
  have b: "task_a \<in> set (tasks (pl ex_game 0))" by (simp add: ex_game_fields)
  have c: "idle_clear ex_game" using fresh_ex_game by (intro reachable_idle_clear r_fresh)
  have d: "current_task (pl ex_game 0) = None" by (simp add: ex_game_fields)
  have e: "\<not> imposter (pl ex_game 0)" "remove1 task_a (tasks (pl ex_game 0)) = [task_b]"
    by (simp_all add: ex_game_fields)
  from start_task_effect [OF a disjI1 [OF b]] c d e
  show ?thesis using a b by auto
qed

text \<open>
  Claim C5 as stated (the start clears the elapsed ticks) fails when a queued task is
  started over an active one: in \<open>ex_working\<close> crewmate 0 is alive, has one tick of
  progress on \<open>task_a\<close> and has \<open>task_b\<close> queued; after starting \<open>task_b\<close> the counter
  is still 1.
\<close>

theorem start_task_keeps_progress:
  "state (pl ex_working 0) \<noteq> DEAD \<and> task_b \<in> set (tasks (pl ex_working 0)) \<and>
   current_task (pl (final (apply_action ex_working 0 (StartTaskAction task_b))) 0) = Some task_b \<and>
   ticks_elapsed (pl (final (apply_action ex_working 0 (StartTaskAction task_b))) 0) = 1"
  by (simp add: apply_action_def apply_start_task_def Let_def ex_working_fields)

section \<open>Witnessed reports\<close>

lemma filter_filter_and: "filter P (filter Q xs) = filter (\<lambda>x. Q x \<and> P x) xs"
  by (induction xs) auto

lemma tally_imposters:
  "nodes g (current_location (pl g r)) = Some node \<Longrightarrow>
   int (length (imposters_in_node g r (filter (\<lambda>p. p \<noteq> r) (node_players node)))) = tally g r True"
  by (simp add: imposters_in_node_def tally_def occupants_def Let_def filter_filter_and)

lemma tally_crewmates:
  "nodes g (current_location (pl g r)) = Some node \<Longrightarrow>
   int (length (crewmates_in_node g r (filter (\<lambda>p. p \<noteq> r) (node_players node)))) = tally g r False"
  by (simp add: crewmates_in_node_def tally_def occupants_def Let_def filter_filter_and)

lemma tally_mark_reported [simp]: "tally (mark_reported g d) r side = tally g r side"
  by (simp add: tally_def occupants_def)

lemma eliminates_vote_out:
  "eliminates g (log_report_outcome (vote_out (mark_reported g d) x) r w d' v) (Some x)"
  by (simp add: eliminates_def)

lemma eliminates_none: "eliminates g (mark_reported g d) None"
  by (simp add: eliminates_def)

text \<open>
  Claim C7 (the majority tally of a witnessed report).  For a reporter standing on a
  location of the map, the report does not raise, and: if the living impostors there
  outnumber the living crewmates (reporter counted on its own side) the reporter, and
  nobody else, becomes dead and voted-out; if the crewmates outnumber the impostors it
  is the reporter when the reporter is an impostor and the named witnessed player
  otherwise; on an exact tie nobody does.
\<close>

theorem witnessed_report_majority:
  assumes "nodes g (current_location (pl g r)) \<noteq> None"
  shows "\<not> raises (report g r d (Some w)) \<and>
         (tally g r True \<ge> tally g r False + 1 \<longrightarrow>
            eliminates g (final (report g r d (Some w))) (Some r)) \<and>
         (tally g r False \<ge> tally g r True + 1 \<longrightarrow>
            eliminates g (final (report g r d (Some w))) (Some (if imposter (pl g r) then r else w))) \<and>
         (tally g r True = tally g r False \<longrightarrow>
            eliminates g (final (report g r d (Some w))) None)"
proof -
  from assms obtain node where n: "nodes g (current_location (pl g r)) = Some node" by auto
  let ?g1 = "mark_reported g d"
  have n1: "nodes ?g1 (current_location (pl ?g1 r)) = Some node" using n by simp
  have o: "get_other_players_in_current_node ?g1 r = Some (filter (\<lambda>p. p \<noteq> r) (node_players node))"
    using n1 by (simp add: get_other_players_in_current_node_def get_player_current_node_def)
  have ti: "int (length (imposters_in_node ?g1 r (filter (\<lambda>p. p \<noteq> r) (node_players node)))) = tally g r True"
    using tally_imposters [OF n1] by simp
  have tc: "int (length (crewmates_in_node ?g1 r (filter (\<lambda>p. p \<noteq> r) (node_players node)))) = tally g r False"
    using tally_crewmates [OF n1] by simp
  show ?thesis
    unfolding report_def Let_def
    by (simp add: witnessed_report_def o ti tc Let_def eliminates_vote_out eliminates_none
          del: of_nat_add of_nat_Suc)
qed

theorem witnessed_report_majority_witness:
  "nodes ex_game (current_location (pl ex_game 0)) \<noteq> None \<and>
   tally ex_game 0 False \<ge> tally ex_game 0 True + 1 \<and>
   \<not> raises (report ex_game 0 None (Some 1)) \<and>
   eliminates ex_game (final (report ex_game 0 None (Some 1))) (Some 1) \<and>
   nodes ex_game (current_location (pl ex_game 2)) \<noteq> None \<and>
   tally ex_game 2 True = tally ex_game 2 False \<and>
   eliminates ex_game (final (report ex_game 2 None (Some 4))) None \<and>
   nodes ex_game_dead (current_location (pl ex_game_dead 4)) \<noteq> None \<and>
   tally ex_game_dead 4 True \<ge> tally ex_game_dead 4 False + 1 \<and>
   eliminates ex_game_dead (final (report ex_game_dead 4 None (Some 2))) (Some 4)"
proof -
  have n0: "nodes ex_game (current_location (pl ex_game 0)) \<noteq> None"
    and n2: "nodes ex_game (current_location (pl ex_game 2)) \<noteq> None"
    and n4: "nodes ex_game_dead (current_location (pl ex_game_dead 4)) \<noteq> None"
    by (simp_all add: ex_game_fields ex_game_dead_fields)
  have t0: "tally ex_game 0 False = 2" "tally ex_game 0 True = 1"
    and t2: "tally ex_game 2 False = 1" "tally ex_game 2 True = 1"
    by (simp_all add: tally_def occupants_def ex_game_fields)
  have t4: "tally ex_game_dead 4 False = 0" "tally ex_game_dead 4 True = 1"
    by (simp_all add: tally_def occupants_def ex_game_fields ex_game_dead_fields)
  have i0: "\<not> imposter (pl ex_game 0)" by (simp add: ex_game_fields)
  from witnessed_report_majority [OF n0, of None 1] t0 i0
  have a: "\<not> raises (report ex_game 0 None (Some 1))"
       "eliminates ex_game (final (report ex_game 0 None (Some 1))) (Some 1)" by simp_all
  from witnessed_report_majority [OF n2, of None 4] t2
  have b: "eliminates ex_game (final (report ex_game 2 None (Some 4))) None" by simp
  from witnessed_report_majority [OF n4, of None 2] t4
  have c: "eliminates ex_game_dead (final (report ex_game_dead 4 None (Some 2))) (Some 4)" by simp
  show ?thesis using n0 n2 n4 t0 t2 t4 a b c by simp
qed

lemma witnessed_tie_no_log:
  assumes "nodes g (current_location (pl g r)) \<noteq> None"
    and "tally g r True = tally g r False"
  shows "report g r d (Some w) = Inr (mark_reported g d)"
proof -
  from assms obtain node where n: "nodes g (current_location (pl g r)) = Some node" by auto
  let ?g1 = "mark_reported g d"
  have n1: "nodes ?g1 (current_location (pl ?g1 r)) = Some node" using n by simp
  have o: "get_other_players_in_current_node ?g1 r = Some (filter (\<lambda>p. p \<noteq> r) (node_players node))"
    using n1 by (simp add: get_other_players_in_current_node_def get_player_current_node_def)
  have ti: "int (length (imposters_in_node ?g1 r (filter (\<lambda>p. p \<noteq> r) (node_players node)))) = tally g r True"
    using tally_imposters [OF n1] by simp
  have tc: "int (length (crewmates_in_node ?g1 r (filter (\<lambda>p. p \<noteq> r) (node_players node)))) = tally g r False"
    using tally_crewmates [OF n1] by simp
  show ?thesis
    unfolding report_def Let_def
    using assms(2) by (simp add: witnessed_report_def o ti tc Let_def del: of_nat_add of_nat_Suc)
qed

text \<open>
  Claim C4 (every witnessed-report resolution appends an outcome record, the tie
  included).  By \<open>witnessed_tie_no_log\<close> a tie returns the state with the bodies marked
  and nothing else: the tie branch of \<^verbatim>\<open>report\<close> returns without calling
  \<^verbatim>\<open>_log_report_outcome\<close>.  In \<open>ex_game\<close> crewmate 2 reports impostor 4, one against
  one: the action log gains the report action written by \<^verbatim>\<open>apply_action\<close> and no
  outcome record.
\<close>

theorem witnessed_tie_logs_nothing:
  "apply_action ex_game 2 (ReportAction None (Some 4)) =
     Inr (ex_game\<lparr>action_history := [(0, 2, Act (ReportAction None (Some 4)))]\<rparr>)"
  by (simp add: apply_action_def apply_report_def report_def witnessed_report_def
        get_other_players_in_current_node_def get_player_current_node_def
        imposters_in_node_def crewmates_in_node_def Let_def log_action_def
        mark_reported_def bodies_of_def ex_game_fields)

section \<open>Body reports\<close>

subsection \<open>Reports that match no kill record\<close>

lemma report_no_record_raises:
  assumes "state (pl g r) \<noteq> DEAD" and "relevant g (set (bodies_of d)) = []"
  shows "apply_action g r (ReportAction d None) =
           Inl (IndexError, mark_reported (log_action g r (ReportAction d None)) d)"
  using assms
  by (simp add: apply_action_def apply_report_def report_def body_report_def relevant_def Let_def)

text \<open>
  Claim C1 (the engine never raises; a body report that matches no Kill Witness Record
  is declined silently).  By \<open>report_no_record_raises\<close> such a report of a living
  player raises \<^verbatim>\<open>IndexError\<close> at \<^verbatim>\<open>relevant[0]\<close>, after the action has been
  logged and the listed bodies have been marked as reported.  In the freshly loaded
  \<open>ex_game\<close> crewmate 0 reports an empty body list with no witnessed player.
\<close>

theorem report_without_record_raises:
  "apply_action ex_game 0 (ReportAction (Some []) None) =
     Inl (IndexError, log_action ex_game 0 (ReportAction (Some []) None))"
  by (simp add: apply_action_def apply_report_def report_def body_report_def relevant_def
        mark_reported_def bodies_of_def ex_game_def new_player_def log_action_def)

subsection \<open>Direct witnesses\<close>

lemma sorted_map_filter: "sorted (map f xs) \<Longrightarrow> sorted (map f (filter P xs))"
  by (induction xs) auto

lemma first_of_sorted_filter:
  assumes "sorted (map f xs)" "filter P xs = e # es" "e' \<in> set xs" "P e'"
  shows "f e \<le> f e'"
proof -
  have "sorted (map f (e # es))" using assms(1,2) sorted_map_filter [of f xs P] by simp
  moreover have "e' \<in> set (filter P xs)" using assms(3,4) by simp
  then have "e' \<in> set (e # es)" using assms(2) by simp
  ultimately show ?thesis by auto
qed

lemma direct_witness_when_ordered:
  assumes "kill_log_ordered g" and "relevant g (set (bodies_of d)) = e # es"
  shows "e \<in> set (kill_witness_history g) \<and> victim e \<in> set (bodies_of d) \<and>
         (\<forall>e' \<in> set (kill_witness_history g).
            victim e' \<in> set (bodies_of d) \<longrightarrow> tick_kw e \<le> tick_kw e') \<and>
         (witnesses e \<noteq> [] \<longrightarrow>
            report g r d None =
              Inr (log_report_outcome (vote_out (mark_reported g d) (killer e)) r
                     (Some (killer e)) d (Some (killer e))) \<and>
            eliminates g (final (report g r d None)) (Some (killer e)))"
proof -
  let ?P = "\<lambda>entry. victim entry \<in> set (bodies_of d)"
  have f: "filter ?P (kill_witness_history g) = e # es"
    using assms(2) by (simp add: relevant_def)
  have "e \<in> set (filter ?P (kill_witness_history g))" using f by simp
  then have 1: "e \<in> set (kill_witness_history g)" "victim e \<in> set (bodies_of d)" by auto
  have s: "sorted (map tick_kw (kill_witness_history g))"
    using assms(1) by (simp add: kill_log_ordered_def)
  have 2: "\<forall>e' \<in> set (kill_witness_history g).
            victim e' \<in> set (bodies_of d) \<longrightarrow> tick_kw e \<le> tick_kw e'"
    using first_of_sorted_filter [OF s f] by blast
  have r: "relevant (mark_reported g d) (set (bodies_of d)) = e # es"
    using assms(2) by (simp add: relevant_def)
  have 3: "witnesses e \<noteq> [] \<Longrightarrow> report g r d None =
              Inr (log_report_outcome (vote_out (mark_reported g d) (killer e)) r
                     (Some (killer e)) d (Some (killer e)))"
    by (simp add: report_def body_report_def r Let_def)
  show ?thesis using 1 2 3 by (simp add: eliminates_vote_out)
qed

text \<open>
  Claim C6 (a body report that matches a kill record resolves on the earliest such
  record; if that record has a direct witness, the recorded killer and only the recorded
  killer is eliminated, whatever the suspicion scores would be).  The resolver takes the
  first matching record of the kill log, \<open>e\<close>; in a reachable state the log is in tick
  order, so no matching record has an earlier tick.  With a witness on \<open>e\<close> the result
  is the state with the bodies marked, the killer voted out and the outcome logged: it
  does not depend on the movement history or on any social field.
\<close>

theorem body_report_direct_witness:
  assumes "reachable allowed g" and "relevant g (set (bodies_of d)) = e # es"
  shows "e \<in> set (kill_witness_history g) \<and> victim e \<in> set (bodies_of d) \<and>
         (\<forall>e' \<in> set (kill_witness_history g).
            victim e' \<in> set (bodies_of d) \<longrightarrow> tick_kw e \<le> tick_kw e') \<and>
         (witnesses e \<noteq> [] \<longrightarrow>
            report g r d None =
              Inr (log_report_outcome (vote_out (mark_reported g d) (killer e)) r
                     (Some (killer e)) d (Some (killer e))) \<and>
            eliminates g (final (report g r d None)) (Some (killer e)))"
  using direct_witness_when_ordered [OF reachable_kill_log_ordered [OF assms(1)] assms(2)] .

theorem body_report_direct_witness_witness:
  "reachable (\<lambda>a. True) ex_killed \<and>
   relevant ex_killed (set (bodies_of (Some [0]))) =
     [\<lparr>tick_kw = 0, killer = 1, victim = 0, witnesses = [3]\<rparr>] \<and>
   report ex_killed 3 (Some [0]) None =
     Inr (log_report_outcome (vote_out (mark_reported ex_killed (Some [0])) 1) 3 (Some 1) (Some [0]) (Some 1)) \<and>
   eliminates ex_killed (final (report ex_killed 3 (Some [0]) None)) (Some 1)"
proof -
  let ?e = "\<lparr>tick_kw = 0, killer = 1, victim = 0, witnesses = [3]\<rparr>"
  have "reachable (\<lambda>a. True) ex_game" using fresh_ex_game by (rule r_fresh)
  then have o: "reachable (\<lambda>a. True) ex_killed"
    unfolding ex_killed_def by (rule r_action) simp
  have r: "relevant ex_killed (set (bodies_of (Some [0]))) = ?e # []"
    by (simp add: relevant_def bodies_of_def ex_killed_fields)
  from body_report_direct_witness [OF o r, of 3]
  show ?thesis using o r by (simp add: eliminates_vote_out)
qed

subsection \<open>Suspicion scores\<close>






lemma sus_vouch_inner:
  "fold (\<lambda>s sc''. if s \<in> V \<and> a then sc''(s := 0) else sc'') keys sc s' =
     (if s' \<in> set keys \<and> s' \<in> V \<and> a then 0 else sc s')"
  by (induction keys arbitrary: sc) auto

lemma sus_vouch_outer:
  "fold (\<lambda>p sc'. fold (\<lambda>s sc''. if s \<in> vouch_history (pl g p) \<and> state (pl g p) \<noteq> DEAD
                                   then sc''(s := 0) else sc'') keys sc') ps sc s =
     (if s \<in> set keys \<and> (\<exists>p \<in> set ps. s \<in> vouch_history (pl g p) \<and> state (pl g p) \<noteq> DEAD)
      then 0 else sc s)"
  (is "fold ?inner ps sc s = _")
proof (induction ps arbitrary: sc)
  case Nil
  then show ?case by simp
next
  case (Cons p ps)
  have i: "?inner p sc s =
      (if s \<in> set keys \<and> s \<in> vouch_history (pl g p) \<and> state (pl g p) \<noteq> DEAD then 0 else sc s)"
    by (rule sus_vouch_inner)
  have "fold ?inner (p # ps) sc s = fold ?inner ps (?inner p sc) s" by simp
  also have "\<dots> = (if s \<in> set keys \<and>
                        (\<exists>p \<in> set ps. s \<in> vouch_history (pl g p) \<and> state (pl g p) \<noteq> DEAD)
                     then 0 else ?inner p sc s)"
    by (rule Cons.IH)
  finally show ?case using i by auto
qed

lemma sus_vouch_value:
  "sus_vouch g keys sc s =
     (if s \<in> set keys \<and> (\<exists>p \<in> set (players g). s \<in> vouch_history (pl g p) \<and> state (pl g p) \<noteq> DEAD)
      then 0 else sc s)"
  unfolding sus_vouch_def by (rule sus_vouch_outer)

lemma set_dict_keys [simp]: "set (dict_keys xs) = set xs"
  by (induction xs) auto

text \<open>
  Claim C8 (vouch immunity).  Whenever the scoring of a body report completes, a living
  roster player \<open>s\<close> for whom some living roster player \<open>p\<close> vouches has score 0 in the
  scores from which the candidates are selected, whatever the co-location, movement and
  leader/follower passes had added.
\<close>

theorem vouch_immunity:
  assumes "sus_scores g dead_set latest_entry = Inr sc"
    and "s \<in> set (players g)" and "state (pl g s) \<noteq> DEAD"
    and "p \<in> set (players g)" and "state (pl g p) \<noteq> DEAD"
    and "s \<in> vouch_history (pl g p)"
  shows "sc s = 0"
proof -
  from assms(1) obtain sc3 where "sc = sus_vouch g (sus_keys g) sc3"
    by (auto simp: sus_scores_def split: sum.splits)
  moreover have "s \<in> set (sus_keys g)" using assms(2,3) by (simp add: sus_keys_def)
  ultimately show ?thesis using assms(4,5,6) by (auto simp: sus_vouch_value)
qed

theorem vouch_immunity_witness:
  "\<exists>sc. sus_scores ex_vouch {2} \<lparr>tick_kw = 0, killer = 4, victim = 2, witnesses = []\<rparr> = Inr sc \<and>
        0 \<in> set (players ex_vouch) \<and> state (pl ex_vouch 0) \<noteq> DEAD \<and>
        3 \<in> set (players ex_vouch) \<and> state (pl ex_vouch 3) \<noteq> DEAD \<and>
        0 \<in> vouch_history (pl ex_vouch 3) \<and> sc 0 = 0"
proof -
  from ex_vouch_scores obtain sc where
    s: "sus_scores ex_vouch {2} \<lparr>tick_kw = 0, killer = 4, victim = 2, witnesses = []\<rparr> = Inr sc"
    by blast
  have h: "0 \<in> set (players ex_vouch)" "state (pl ex_vouch 0) \<noteq> DEAD"
    "3 \<in> set (players ex_vouch)" "state (pl ex_vouch 3) \<noteq> DEAD"
    "0 \<in> vouch_history (pl ex_vouch 3)"
    by (simp_all add: ex_vouch_fields)
  from vouch_immunity [OF s h] have "sc 0 = 0" .
  with s h show ?thesis by blast
qed

section \<open>The player invariants\<close>

text \<open>
  Every step of the engine and of the policy other than a \<^verbatim>\<open>FollowAction\<close> that
  names a leader keeps the three invariants: in the states reached without one, every
  dislike weight lies in [0, \<^verbatim>\<open>MAX_DISLIKE\<close>], both cooldowns are non-negative, and
  no player has a leader reference together with a non-empty follower list.
  \<^verbatim>\<open>ensure_groups\<close> and \<^verbatim>\<open>reroll_group_leader\<close> keep the last one by assigning
  both social fields of every member they touch.
\<close>

lemma reachable_invariants:
  assumes "reachable star_safe g"
  shows "0 \<le> dislike_of (pl g p) loc \<and> dislike_of (pl g p) loc \<le> MAX_DISLIKE \<and>
         0 \<le> kill_cooldown (pl g p) \<and> 0 \<le> vent_cooldown (pl g p) \<and>
         \<not> (following_player (pl g p) \<noteq> None \<and> player_following (pl g p) \<noteq> [])"
  using reachable_game_ok [OF assms] by (simp add: game_ok_def player_ok_def)

lemma reachable_invariants_example:
  "reachable star_safe ex_grouped \<and>
   0 \<le> dislike_of (pl ex_grouped 0) ''B'' \<and> dislike_of (pl ex_grouped 0) ''B'' \<le> MAX_DISLIKE \<and>
   0 \<le> kill_cooldown (pl ex_grouped 0) \<and> 0 \<le> vent_cooldown (pl ex_grouped 0) \<and>
   \<not> (following_player (pl ex_grouped 0) \<noteq> None \<and> player_following (pl ex_grouped 0) \<noteq> [])"
proof -
  have "reachable star_safe ex_game" using fresh_ex_game by (rule r_fresh)
  then have "reachable star_safe (final (apply_action ex_game 0 (MoveAction ''B'')))"
    by (rule r_action) (simp add: star_safe_def)
  then have "reachable star_safe (begin_tick (final (apply_action ex_game 0 (MoveAction ''B''))))"
    by (rule r_tick)
  then have r: "reachable star_safe ex_grouped"
    unfolding ex_grouped_def by (rule r_groups)
  from reachable_invariants [OF r, of 0 "''B''"] r show ?thesis by blast
qed

text \<open>
  Claim C9 (in every state reachable by engine actions and policy group operations the
  dislike weights lie in [0, \<^verbatim>\<open>MAX_DISLIKE\<close>], the cooldowns are non-negative, and
  no player has both a leader reference and a non-empty follower list).  The last part
  is broken by the engine action \<^verbatim>\<open>FollowAction\<close>: \<^verbatim>\<open>_apply_follow\<close> sets the
  player's leader and extends the leader's follower list without looking at the
  player's own followers.  From the fresh \<open>ex_game\<close>, player 2 follows player 0 and
  then player 0 follows player 3: player 0 has the leader 3 and the follower 2.
\<close>

theorem follow_action_breaks_stars:
  "reachable (\<lambda>a. True) ex_follow \<and>
   following_player (pl ex_follow 0) = Some 3 \<and> player_following (pl ex_follow 0) = [2]"
proof -
  have "reachable (\<lambda>a. True) ex_game" using fresh_ex_game by (rule r_fresh)
  then have "reachable (\<lambda>a. True) (final (apply_action ex_game 2 (FollowAction (Some 0))))"
    by (rule r_action) simp
  then have "reachable (\<lambda>a. True) ex_follow"
    unfolding ex_follow_def by (rule r_action) simp
  then show ?thesis by (simp add: ex_follow_fields)
qed

section \<open>The action log\<close>

lemma declined_move_is_logged:
  "nodes g d = None \<Longrightarrow> apply_action g p (MoveAction d) = Inr (log_action g p (MoveAction d))"
  by (simp add: apply_action_def apply_move_def)

text \<open>
  Claim C10.  \<^verbatim>\<open>apply_action\<close> returns at once on the no-op action, leaving the
  state (and so the action log) as it was.  For every other action it first appends
  \<open>(tick, player, action)\<close> to the action history and only then runs the handler with
  its legality checks: whatever the handler does (commit, decline or raise), the log of
  the resulting state extends the old log by that entry.  An action declined because
  the acting player is dead changes nothing but the log (as does a move to an unknown
  location, \<open>declined_move_is_logged\<close>).
\<close>

theorem apply_action_logs_before_checks:
  "apply_action g p NoneAction = Inr g \<and>
   (a \<noteq> NoneAction \<longrightarrow>
      apply_action g p a = dispatch (log_action g p a) p a \<and>
      (\<exists>zs. action_history (final (apply_action g p a)) =
              action_history g @ [(tick_counter g, p, Act a)] @ zs) \<and>
      (state (pl g p) = DEAD \<longrightarrow>
         apply_action g p a =
           Inr (g\<lparr>action_history := action_history g @ [(tick_counter g, p, Act a)]\<rparr>)))"
proof -
  have "\<exists>zs. action_history (final (dispatch (log_action g p a) p a)) =
              action_history g @ [(tick_counter g, p, Act a)] @ zs"
    using dispatch_appends [of "log_action g p a" p a] by (simp add: appends_def)
  moreover have "state (pl g p) = DEAD \<Longrightarrow> a \<noteq> NoneAction \<Longrightarrow>
      apply_action g p a = Inr (g\<lparr>action_history := action_history g @ [(tick_counter g, p, Act a)]\<rparr>)"
    using apply_action_dead [of g p a] by (simp add: log_action_def)
  ultimately show ?thesis by (simp add: apply_action_def)
qed

theorem apply_action_logs_before_checks_witness:
  "MoveAction ''A'' \<noteq> NoneAction \<and> state (pl ex_game_dead 2) = DEAD \<and>
   apply_action ex_game_dead 2 NoneAction = Inr ex_game_dead \<and>
   apply_action ex_game_dead 2 (MoveAction ''A'') =
     Inr (ex_game_dead\<lparr>action_history := [(0, 2, Act (MoveAction ''A''))]\<rparr>)"
proof -
  have d: "state (pl ex_game_dead 2) = DEAD"
    by (simp add: ex_game_dead_def)
  have h: "action_history ex_game_dead = []" "tick_counter ex_game_dead = 0"
    by (simp_all add: ex_game_dead_def ex_game_def)
  have n: "MoveAction ''A'' \<noteq> NoneAction" by simp
  from apply_action_logs_before_checks [of ex_game_dead 2 "MoveAction ''A''"] n d
  have "apply_action ex_game_dead 2 NoneAction = Inr ex_game_dead"
    and "apply_action ex_game_dead 2 (MoveAction ''A'') =
           Inr (ex_game_dead\<lparr>action_history :=
                  action_history ex_game_dead @ [(tick_counter ex_game_dead, 2, Act (MoveAction ''A''))]\<rparr>)"
    by blast+
  with n d h show ?thesis by simp
qed

end
